theory Spec2Isabelle
  imports Complex_Main "HOL-Library.Multiset"
begin

section \<open>Data model of the LIFO solver (solver2-1Queue.c)\<close>

text \<open>
  The C type \<open>double\<close> is idealised as \<^typ>\<open>real\<close>: every arithmetic operation of the
  kernel is the exact operation on real numbers. The rounding of the midpoint
  \<open>(left + right) / 2.0\<close>, on which the shape of the refinement depends, is modelled apart
  (section "The midpoint in binary64"). The C type \<open>int\<close> of the index \<open>top\<close> and of the
  two counters is \<^typ>\<open>int\<close>; the index never leaves \<open>-1 .. MAXQUEUE - 1\<close> (shown below).
  The counters of the model count without bound; what the \<open>int\<close> variables hold once a
  counter has passed \<open>INT_MAX\<close>, which needs \<open>2^30\<close> splits, is given by \<open>c_int\<close> (section
  "The counters as int variables").
\<close>

record Interval =
  left :: real
  right :: real
  tol :: real
  f_left :: real
  f_mid :: real
  f_right :: real

definition MAXQUEUE :: int where
  "MAXQUEUE = 10000"

text \<open>
  \<open>struct Queue\<close>: the array \<open>entry[MAXQUEUE]\<close> is a function from indices to intervals
  (the slots the program never wrote hold whatever the memory held), \<open>top\<close> is the index of
  the last entry. The OpenMP lock of the struct is taken and released inside every
  operation; the model runs each operation as one indivisible step and has no lock field.
\<close>

record Queue =
  entry :: "int \<Rightarrow> Interval"
  top :: int

text \<open>The two ways in which a queue operation ends the process with \<open>exit(1)\<close>.\<close>

datatype error = QueueFull | QueueEmpty

definition enqueue :: "Interval \<Rightarrow> Queue \<Rightarrow> error + Queue" where
  "enqueue interval queue_p =
     (if top queue_p = MAXQUEUE - 1 then Inl QueueFull
      else Inr (queue_p\<lparr>entry := (entry queue_p)(top queue_p + 1 := interval),
                        top := top queue_p + 1\<rparr>))"

definition dequeue :: "Queue \<Rightarrow> error + (Interval \<times> Queue)" where
  "dequeue queue_p =
     (if top queue_p = - 1 then Inl QueueEmpty
      else Inr (entry queue_p (top queue_p), queue_p\<lparr>top := top queue_p - 1\<rparr>))"

definition init :: "Queue \<Rightarrow> Queue" where
  "init queue_p = queue_p\<lparr>top := - 1\<rparr>"

definition isempty :: "Queue \<Rightarrow> bool" where
  "isempty queue_p = (top queue_p = - 1)"

definition size_queue :: "Queue \<Rightarrow> int" where
  "size_queue queue_p = top queue_p + 1"

text \<open>
  The live part of the array, bottom first: the entries at the indices \<open>0 .. top\<close>. It is
  the stack the store stands for; it is not part of the program.
\<close>

definition contents :: "Queue \<Rightarrow> Interval list" where
  "contents queue_p = map (entry queue_p) [0..top queue_p]"

text \<open>The index is inside the array or is the empty mark \<open>-1\<close>.\<close>

definition top_ok :: "Queue \<Rightarrow> bool" where
  "top_ok queue_p = (- 1 \<le> top queue_p \<and> top queue_p < MAXQUEUE)"

section \<open>The quadrature kernel\<close>

text \<open>
  The body of the worker loop after the pop, which is also the body of the recursive
  \<open>simpson\<close>: the same statements in both files. Each local variable of the source is a
  function of the interval (and of the integrand \<open>func\<close>).
\<close>

definition var_h :: "Interval \<Rightarrow> real" where
  "var_h interval = right interval - left interval"

definition var_c :: "Interval \<Rightarrow> real" where
  "var_c interval = (left interval + right interval) / 2"

definition var_d :: "Interval \<Rightarrow> real" where
  "var_d interval = (left interval + var_c interval) / 2"

definition var_e :: "Interval \<Rightarrow> real" where
  "var_e interval = (var_c interval + right interval) / 2"

definition fd :: "(real \<Rightarrow> real) \<Rightarrow> Interval \<Rightarrow> real" where
  "fd func interval = func (var_d interval)"

definition fe :: "(real \<Rightarrow> real) \<Rightarrow> Interval \<Rightarrow> real" where
  "fe func interval = func (var_e interval)"

definition q1 :: "Interval \<Rightarrow> real" where
  "q1 interval =
     var_h interval / 6 * (f_left interval + 4 * f_mid interval + f_right interval)"

definition q2 :: "(real \<Rightarrow> real) \<Rightarrow> Interval \<Rightarrow> real" where
  "q2 func interval =
     var_h interval / 12 * (f_left interval + 4 * fd func interval + 2 * f_mid interval
                        + 4 * fe func interval + f_right interval)"

text \<open>The test of the \<open>if\<close>: \<open>fabs(q2 - q1) < tol || (right - left) < 1.0e-12\<close>.\<close>

definition tolerance_met :: "(real \<Rightarrow> real) \<Rightarrow> Interval \<Rightarrow> bool" where
  "tolerance_met func interval =
     (\<bar>q2 func interval - q1 interval\<bar> < tol interval
      \<or> right interval - left interval < 1 / 10 ^ 12)"

text \<open>The value added to the total: \<open>q2 + (q2 - q1) / 15.0\<close>.\<close>

definition contribution :: "(real \<Rightarrow> real) \<Rightarrow> Interval \<Rightarrow> real" where
  "contribution func interval =
     q2 func interval + (q2 func interval - q1 interval) / 15"

definition i1 :: "(real \<Rightarrow> real) \<Rightarrow> Interval \<Rightarrow> Interval" where
  "i1 func interval =
     \<lparr>left = left interval, right = var_c interval, tol = tol interval,
      f_left = f_left interval, f_mid = fd func interval, f_right = f_mid interval\<rparr>"

definition i2 :: "(real \<Rightarrow> real) \<Rightarrow> Interval \<Rightarrow> Interval" where
  "i2 func interval =
     \<lparr>left = var_c interval, right = right interval, tol = tol interval,
      f_left = f_mid interval, f_mid = fe func interval, f_right = f_right interval\<rparr>"

section \<open>The worker loop of solver2-1Queue.c\<close>

text \<open>
  Where a thread stands in \<open>while (1)\<close>: at the head of the loop, before the first
  critical section; holding the interval it has popped, before the critical section that
  adds to the total or the one that pushes the two halves; or out of the loop after
  \<open>break\<close>.
\<close>

datatype worker = AtLoopHead | Popped Interval | LeftLoop

text \<open>
  The process runs, or has ended inside \<open>simpson\<close>: with \<open>exit(0)\<close> after
  "Convergence reached", or with \<open>exit(1)\<close> in a queue operation.
\<close>

datatype status = Running | Exited0 | Exited1 error

text \<open>
  The shared variables: the queue, the local \<open>quad\<close> of \<open>simpson\<close> that all threads add
  to, the globals \<open>total\<close> and \<open>total_processed\<close>, and one \<open>worker\<close> per thread. The field
  \<open>accepted\<close> is a history variable that the program does not have: the intervals that
  met the tolerance, in the order in which they were added to \<open>quad\<close>.
\<close>

record solver =
  queue :: Queue
  quad :: real
  total :: int
  total_processed :: int
  workers :: "worker list"
  status :: status
  accepted :: "Interval list"

text \<open>
  The three critical sections. They are unnamed, so OpenMP runs them under one lock, and
  what a thread computes between them reads its own variables only: each is one step.
\<close>

text \<open>Lines 94 to 105: the emptiness test, the pop, and \<open>if (empty) break\<close>.\<close>

definition fetch :: "nat \<Rightarrow> solver \<Rightarrow> solver" where
  "fetch t s =
     (if isempty (queue s) then s\<lparr>workers := (workers s)[t := LeftLoop]\<rparr>
      else (case dequeue (queue s) of
              Inl err \<Rightarrow> s\<lparr>status := Exited1 err\<rparr>
            | Inr (interval, queue') \<Rightarrow>
                s\<lparr>queue := queue', workers := (workers s)[t := Popped interval]\<rparr>))"

text \<open>Lines 118 to 128: the tolerance is met.\<close>

definition accept :: "(real \<Rightarrow> real) \<Rightarrow> nat \<Rightarrow> Interval \<Rightarrow> solver \<Rightarrow> solver" where
  "accept func t interval s =
     (let s' = s\<lparr>quad := quad s + contribution func interval,
                 total_processed := total_processed s + 1,
                 workers := (workers s)[t := AtLoopHead],
                 accepted := accepted s @ [interval]\<rparr>
      in if total_processed s' = total s' then s'\<lparr>status := Exited0\<rparr> else s')"

text \<open>Lines 130 to 152: the tolerance is not met.\<close>

definition split :: "(real \<Rightarrow> real) \<Rightarrow> nat \<Rightarrow> Interval \<Rightarrow> solver \<Rightarrow> solver" where
  "split func t interval s =
     (case enqueue (i1 func interval) (queue s) of
        Inl err \<Rightarrow> s\<lparr>status := Exited1 err\<rparr>
      | Inr queue' \<Rightarrow>
          (case enqueue (i2 func interval) queue' of
             Inl err \<Rightarrow> s\<lparr>queue := queue', status := Exited1 err\<rparr>
           | Inr queue'' \<Rightarrow>
               s\<lparr>queue := queue'', total := total s + 2,
                 workers := (workers s)[t := AtLoopHead]\<rparr>))"

text \<open>
  One step of thread \<open>t\<close>. A thread that has left the loop waits at the end of the
  parallel region, and no thread moves after \<open>exit\<close>.
\<close>

definition step :: "(real \<Rightarrow> real) \<Rightarrow> nat \<Rightarrow> solver \<Rightarrow> solver" where
  "step func t s =
     (if status s = Running \<and> t < length (workers s) then
        (case workers s ! t of
           AtLoopHead \<Rightarrow> fetch t s
         | Popped interval \<Rightarrow>
             if tolerance_met func interval then accept func t interval s
             else split func t interval s
         | LeftLoop \<Rightarrow> s)
      else s)"

text \<open>An interleaving is the list of the threads that move, in order.\<close>

primrec run :: "(real \<Rightarrow> real) \<Rightarrow> nat list \<Rightarrow> solver \<Rightarrow> solver" where
  "run func [] s = s"
| "run func (t # ts) s = run func ts (step func t s)"

text \<open>
  \<open>return quad\<close>: \<open>simpson\<close> returns once every thread has left its loop, if the process
  is still there.
\<close>

definition returned :: "solver \<Rightarrow> real option" where
  "returned s =
     (if status s = Running \<and> list_all (\<lambda>w. w = LeftLoop) (workers s)
      then Some (quad s) else None)"

text \<open>
  \<open>main\<close> up to the call of \<open>simpson\<close>: \<open>init\<close>, the interval \<open>whole\<close>, its \<open>enqueue\<close>,
  \<open>total = 1\<close>. The bounds, the tolerance and the integrand are parameters here, as are
  the memory in which the queue is allocated (\<open>memory\<close>) and the number of threads
  (\<open>omp_get_max_threads()\<close>); \<open>main\<close> itself passes \<open>0.0\<close>, \<open>10.0\<close>, \<open>1e-06\<close> and \<open>func1\<close>.
\<close>

definition whole :: "(real \<Rightarrow> real) \<Rightarrow> real \<Rightarrow> real \<Rightarrow> real \<Rightarrow> Interval" where
  "whole func a b eps =
     \<lparr>left = a, right = b, tol = eps,
      f_left = func a, f_mid = func ((a + b) / 2), f_right = func b\<rparr>"

definition start ::
  "(real \<Rightarrow> real) \<Rightarrow> real \<Rightarrow> real \<Rightarrow> real \<Rightarrow> Queue \<Rightarrow> nat \<Rightarrow> solver" where
  "start func a b eps memory n =
     (case enqueue (whole func a b eps) (init memory) of
        Inl err \<Rightarrow>
          \<lparr>queue = init memory, quad = 0, total = 0, total_processed = 0,
           workers = replicate n AtLoopHead, status = Exited1 err, accepted = []\<rparr>
      | Inr queue' \<Rightarrow>
          \<lparr>queue = queue', quad = 0, total = 1, total_processed = 0,
           workers = replicate n AtLoopHead, status = Running, accepted = []\<rparr>)"

definition main_start :: "(real \<Rightarrow> real) \<Rightarrow> Queue \<Rightarrow> nat \<Rightarrow> solver" where
  "main_start func1 memory n = start func1 0 10 (1 / 10 ^ 6) memory n"

section \<open>The first critical section of the variant with a termination flag\<close>

text \<open>
  The second queue solver of the repository has the same queue and the same kernel. Its
  shared flag \<open>done\<close> is the field \<open>done_flag\<close>, its loop is \<open>while (!done)\<close>, and its
  first critical section is
  \<^verbatim>\<open>if (!isempty(queue)) { interval = dequeue(queue); gotWork = true; }
  else if (total_processed == total) { done = true; }\<close>
  followed by \<open>if (done) break;\<close> and \<open>if (!gotWork) continue;\<close>. The test of the loop,
  the critical section and the two tests after it are one step of the thread here; a
  thread that continues is back at the head of the loop with the state unchanged.
\<close>

record flagged = solver +
  done_flag :: bool

definition try_get_work :: "nat \<Rightarrow> flagged \<Rightarrow> flagged" where
  "try_get_work t s =
     (if done_flag s then s\<lparr>workers := (workers s)[t := LeftLoop]\<rparr>
      else if \<not> isempty (queue s) then
        (case dequeue (queue s) of
           Inl err \<Rightarrow> s\<lparr>status := Exited1 err\<rparr>
         | Inr (interval, queue') \<Rightarrow>
             s\<lparr>queue := queue', workers := (workers s)[t := Popped interval]\<rparr>)
      else if total_processed s = total s then
        s\<lparr>done_flag := True, workers := (workers s)[t := LeftLoop]\<rparr>
      else s)"

section \<open>Notions used to state the properties\<close>

text \<open>The intervals that threads hold, and all intervals that are still to be treated.\<close>

fun popped :: "worker \<Rightarrow> Interval list" where
  "popped (Popped interval) = [interval]"
| "popped AtLoopHead = []"
| "popped LeftLoop = []"

definition pending :: "solver \<Rightarrow> Interval list" where
  "pending s = contents (queue s) @ concat (map popped (workers s))"


text \<open>
  The two estimates as the specification writes them, with the fresh evaluations at the
  one-quarter and three-quarter points of \<open>[left, right]\<close>.
\<close>

definition quarter :: "Interval \<Rightarrow> real" where
  "quarter interval = left interval + (right interval - left interval) / 4"

definition three_quarter :: "Interval \<Rightarrow> real" where
  "three_quarter interval = left interval + 3 * (right interval - left interval) / 4"

definition spec_q1 :: "Interval \<Rightarrow> real" where
  "spec_q1 interval =
     (right interval - left interval) / 6
       * (f_left interval + 4 * f_mid interval + f_right interval)"

definition spec_q2 :: "(real \<Rightarrow> real) \<Rightarrow> Interval \<Rightarrow> real" where
  "spec_q2 func interval =
     (right interval - left interval) / 12
       * (f_left interval + 4 * func (quarter interval) + 2 * f_mid interval
          + 4 * func (three_quarter interval) + f_right interval)"

text \<open>
  How many times a width can be halved before it is below the floor \<open>1e-12\<close>, and the
  weights that bound the work an interval can still cause: a queued interval of rank \<open>k\<close>
  stands for at most \<open>2^(k+2) - 2\<close> steps, a popped one for one step less.
\<close>

definition halvings :: "real \<Rightarrow> nat" where
  "halvings w = (if w < 1 / 10 ^ 12 then 0 else nat \<lfloor>log 2 (w * 10 ^ 12)\<rfloor> + 1)"





text \<open>
  The invariant of the counters: with \<open>pending\<close> intervals still to be treated,
  \<open>2 * (total_processed + pending) = total + 1\<close> while the process has not ended in a queue
  operation.
\<close>

definition counters_inv :: "solver \<Rightarrow> bool" where
  "counters_inv s =
     (top_ok (queue s) \<and> 0 \<le> total_processed s \<and> 1 \<le> total s
      \<and> odd (total s) \<and> total_processed s \<le> total s
      \<and> (status s = Running \<longrightarrow> total_processed s \<noteq> total s)
      \<and> (status s = Exited0 \<longrightarrow> total_processed s = total s)
      \<and> (status s = Running \<or> status s = Exited0 \<longrightarrow>
            2 * (total_processed s + int (length (pending s))) = total s + 1))"



definition quiescent_inv :: "solver \<Rightarrow> bool" where
  "quiescent_inv s =
     (list_all (\<lambda>w. w = LeftLoop) (workers s) \<longrightarrow> isempty (queue s))"

text \<open>No split has happened: only the whole interval \<open>seed\<close> is around.\<close>

definition unsplit_inv :: "Interval \<Rightarrow> solver \<Rightarrow> bool" where
  "unsplit_inv seed s =
     (top_ok (queue s) \<and> total s = 1 \<and> list_all (\<lambda>interval. interval = seed) (pending s))"

section \<open>The recursive solver\<close>

text \<open>Halving a width that is not below the floor lowers its rank.\<close>

lemma halvings_half:
  assumes "\<not> w < 1 / 10 ^ 12"
  shows "halvings (w / 2) < halvings w"
proof (cases "w / 2 < 1 / 10 ^ 12")
  case True
  with assms show ?thesis by (simp add: halvings_def)
next
  case False
  define x where "x = log 2 (w * 10 ^ 12)"
  define y where "y = log 2 (w / 2 * 10 ^ 12)"
  from False have pos: "1 \<le> w / 2 * 10 ^ 12" by (simp add: field_simps)
  then have "0 < w * 10 ^ 12" by simp
  then have "log 2 (w * 10 ^ 12 / 2) = log 2 (w * 10 ^ 12) - log 2 2"
    by (rule log_divide_pos) simp
  moreover have "w / 2 * 10 ^ 12 = w * 10 ^ 12 / 2" by simp
  ultimately have yx: "y = x - 1" by (simp add: x_def y_def)
  have "(0 \<le> log 2 (w / 2 * 10 ^ 12)) = (1 \<le> w / 2 * 10 ^ 12)"
    using pos by (intro zero_le_log_cancel_iff) simp_all
  with pos have y0: "0 \<le> y" by (simp only: y_def)
  from yx have "\<lfloor>y\<rfloor> = \<lfloor>x\<rfloor> - 1" by simp
  moreover from y0 have "0 \<le> \<lfloor>y\<rfloor>" by simp
  ultimately have "nat \<lfloor>y\<rfloor> + 1 = nat \<lfloor>x\<rfloor>" by linarith
  moreover from assms False have "halvings (w / 2) = nat \<lfloor>y\<rfloor> + 1"
    and "halvings w = nat \<lfloor>x\<rfloor> + 1"
    by (simp_all add: halvings_def x_def y_def)
  ultimately show ?thesis by linarith
qed

lemma halvings_children:
  assumes "\<not> tolerance_met func interval"
  shows "halvings (var_h (i1 func interval)) < halvings (var_h interval)"
    and "halvings (var_h (i2 func interval)) < halvings (var_h interval)"
proof -
  from assms have "\<not> var_h interval < 1 / 10 ^ 12"
    by (simp add: tolerance_met_def var_h_def)
  from halvings_half [OF this]
  show "halvings (var_h (i1 func interval)) < halvings (var_h interval)"
    and "halvings (var_h (i2 func interval)) < halvings (var_h interval)"
    by (simp_all add: var_h_def i1_def i2_def var_c_def field_simps)
qed

text \<open>
  The recursive \<open>simpson\<close> of the task-based solver: the same kernel, then the sum of
  the two recursive calls (the two OpenMP tasks write \<open>quad1\<close> and \<open>quad2\<close>, and
  \<open>taskwait\<close> joins them before the sum).
\<close>

function simpson :: "(real \<Rightarrow> real) \<Rightarrow> Interval \<Rightarrow> real" where
  "simpson func interval =
     (if tolerance_met func interval then contribution func interval
      else simpson func (i1 func interval) + simpson func (i2 func interval))"
  by pat_completeness auto
termination
  by (relation "measure (\<lambda>(func, interval). halvings (var_h interval))")
    (simp_all add: halvings_children)



text \<open>
  The intervals at which the recursion stops, from left to right: the leaves of the call
  tree of \<open>simpson\<close>.
\<close>

function leaves :: "(real \<Rightarrow> real) \<Rightarrow> Interval \<Rightarrow> Interval list" where
  "leaves func interval =
     (if tolerance_met func interval then [interval]
      else leaves func (i1 func interval) @ leaves func (i2 func interval))"
  by pat_completeness auto
termination
  by (relation "measure (\<lambda>(func, interval). halvings (var_h interval))")
    (simp_all add: halvings_children)

text \<open>The two recursive equations are unfolded by hand only.\<close>

declare leaves.simps [simp del]

declare simpson.simps [simp del]

text \<open>
  What one thread has done when it has treated the interval \<open>x\<close> that was on top of the
  stack \<open>st\<close>: from \<open>s\<close> it has reached \<open>s'\<close>, where the stack is \<open>st\<close> and the leaves of \<open>x\<close>
  are accepted.
\<close>

definition treated :: "(real \<Rightarrow> real) \<Rightarrow> Interval list \<Rightarrow> Interval \<Rightarrow> solver \<Rightarrow> solver \<Rightarrow> bool" where
  "treated func st x s s' =
     (status s' = Running \<and> workers s' = [AtLoopHead] \<and> top_ok (queue s')
      \<and> contents (queue s') = st
      \<and> quad s' = quad s + sum_list (map (contribution func) (leaves func x))
      \<and> accepted s' = accepted s @ rev (leaves func x)
      \<and> total_processed s' = total_processed s + int (length (leaves func x))
      \<and> total s' = total s + 2 * (int (length (leaves func x)) - 1))"

section \<open>The midpoint in binary64\<close>


















section \<open>The counters as \<open>int\<close> variables\<close>

text \<open>
  \<open>total\<close> and \<open>total_processed\<close> are \<open>int\<close> variables of 32 bits, while the fields of
  \<open>solver\<close> count without bound. \<open>c_int\<close> is what such a variable holds once the additions
  have wrapped around in two's complement.
\<close>

definition INT_MAX :: int where
  "INT_MAX = 2147483647"

definition c_int :: "int \<Rightarrow> int" where
  "c_int x = (x + 2147483648) mod 4294967296 - 2147483648"

text \<open>
  The number of steps that one thread takes to treat an interval: a pop and an acceptance
  for each leaf, a pop and a split for each interval above the leaves.
\<close>

definition visits :: "(real \<Rightarrow> real) \<Rightarrow> Interval \<Rightarrow> nat" where
  "visits func interval = 4 * length (leaves func interval) - 2"

section \<open>The work store is a bounded stack\<close>

lemma upto_snoc: "0 \<le> k + 1 \<Longrightarrow> [0..k + 1] = [0..k] @ [k + 1]"
  using upto_rec2 [of 0 "k + 1"] by simp

lemma contents_enqueue:
  assumes "enqueue i s = Inr s'" and "- 1 \<le> top s"
  shows "contents s' = contents s @ [i]"
proof -
  from assms(1) have s': "s' = s\<lparr>entry := (entry s)(top s + 1 := i), top := top s + 1\<rparr>"
    by (auto simp: enqueue_def split: if_splits)
  have "map ((entry s)(top s + 1 := i)) [0..top s] = map (entry s) [0..top s]"
    by (rule map_cong) auto
  with assms(2) show ?thesis
    by (simp add: s' contents_def upto_snoc)
qed

lemma contents_dequeue:
  assumes "dequeue s = Inr (i, s')" and "- 1 \<le> top s"
  shows "contents s = contents s' @ [i]"
proof -
  from assms(1) have ne: "top s \<noteq> - 1" and i: "i = entry s (top s)"
    and s': "s' = s\<lparr>top := top s - 1\<rparr>"
    by (auto simp: dequeue_def split: if_splits)
  from ne assms(2) have "0 \<le> (top s - 1) + 1" by simp
  from upto_snoc [OF this] show ?thesis
    by (simp add: s' i contents_def)
qed

lemma length_contents: "- 1 \<le> top s \<Longrightarrow> int (length (contents s)) = size_queue s"
  by (simp add: contents_def size_queue_def)

lemma top_ok_enqueue: "enqueue i s = Inr s' \<Longrightarrow> top_ok s \<Longrightarrow> top_ok s'"
  by (auto simp: enqueue_def top_ok_def MAXQUEUE_def split: if_splits)

lemma top_ok_dequeue: "dequeue s = Inr (i, s') \<Longrightarrow> top_ok s \<Longrightarrow> top_ok s'"
  by (auto simp: dequeue_def top_ok_def split: if_splits)

lemma top_ok_init: "top_ok (init s)"
  by (simp add: init_def top_ok_def MAXQUEUE_def)

lemma enqueue_error: "enqueue i q = Inl err \<Longrightarrow> err = QueueFull"
  by (auto simp: enqueue_def split: if_splits)

lemma enqueue_room:
  assumes "top_ok q" and "int (length (contents q)) < MAXQUEUE"
  shows "\<exists>q'. enqueue i q = Inr q' \<and> top_ok q' \<and> contents q' = contents q @ [i]"
proof -
  from assms(1) have lo: "- 1 \<le> top q" by (simp add: top_ok_def)
  from length_contents [OF lo] assms(2) have "top q \<noteq> MAXQUEUE - 1"
    by (simp add: size_queue_def)
  then obtain q' where en: "enqueue i q = Inr q'" by (simp add: enqueue_def)
  from top_ok_enqueue [OF en assms(1)] contents_enqueue [OF en lo] en show ?thesis by blast
qed

section \<open>The steps of a thread\<close>

text \<open>The definitions that evaluate a run on a concrete input.\<close>

lemmas kernel_defs = var_h_def var_c_def var_d_def var_e_def fd_def fe_def q1_def q2_def
  tolerance_met_def contribution_def i1_def i2_def

lemmas solver_defs = step_def fetch_def accept_def split_def start_def whole_def
  enqueue_def dequeue_def init_def isempty_def MAXQUEUE_def Let_def

lemma accept_fields:
  "queue (accept func t i s) = queue s"
  "quad (accept func t i s) = quad s + contribution func i"
  "total (accept func t i s) = total s"
  "total_processed (accept func t i s) = total_processed s + 1"
  "workers (accept func t i s) = (workers s)[t := AtLoopHead]"
  "accepted (accept func t i s) = accepted s @ [i]"
  "status (accept func t i s) = (if total_processed s + 1 = total s then Exited0 else status s)"
  by (simp_all add: accept_def Let_def)

lemma split_fields:
  "quad (split func t interval s) = quad s"
  "total_processed (split func t interval s) = total_processed s"
  "accepted (split func t interval s) = accepted s"
  by (simp_all add: split_def split: sum.splits)

lemma start_Running: "status (start func a b eps memory n) = Running"
  by (simp add: start_def enqueue_def init_def MAXQUEUE_def)

lemma held_update:
  "t < length ws \<Longrightarrow>
     mset (concat (map popped (ws[t := w]))) + mset (popped (ws ! t))
       = mset (concat (map popped ws)) + mset (popped w)"
proof (induction ws arbitrary: t)
  case Nil
  then show ?case by simp
next
  case (Cons x ws)
  show ?case
  proof (cases t)
    case 0
    then show ?thesis by simp
  next
    case (Suc k)
    with Cons.prems have "k < length ws" by simp
    from Cons.IH [OF this] Suc show ?thesis by (simp add: ac_simps)
  qed
qed

lemma popped_pending:
  assumes "t < length (workers s)" and "workers s ! t = Popped interval"
  shows "interval \<in> set (pending s)"
proof -
  from assms(1) have "workers s ! t \<in> set (workers s)" by (rule nth_mem)
  with assms(2) have "Popped interval \<in> set (workers s)" by simp
  then have "interval \<in> set (concat (map popped (workers s)))" by force
  then show ?thesis by (simp add: pending_def)
qed

lemma step_dead: "status s \<noteq> Running \<Longrightarrow> step func t s = s"
  by (simp add: step_def)

lemma step_out_of_range: "length (workers s) \<le> t \<Longrightarrow> step func t s = s"
  by (simp add: step_def)

text \<open>What one step of a live thread does to the intervals still to be treated.\<close>

lemma step_effect [consumes 2, case_names leave pop accept split full1 full2 idle]:
  assumes "status s = Running" and "t < length (workers s)"
  obtains
    (leave) "workers s ! t = AtLoopHead" and "isempty (queue s)"
      and "step func t s = s\<lparr>workers := (workers s)[t := LeftLoop]\<rparr>"
      and "mset (pending (step func t s)) = mset (pending s)"
  | (pop) interval q' where "workers s ! t = AtLoopHead"
      and "dequeue (queue s) = Inr (interval, q')"
      and "step func t s = s\<lparr>queue := q', workers := (workers s)[t := Popped interval]\<rparr>"
      and "top_ok (queue s) \<longrightarrow> mset (pending (step func t s)) = mset (pending s)"
  | (accept) interval where "workers s ! t = Popped interval"
      and "tolerance_met func interval"
      and "step func t s = accept func t interval s"
      and "mset (pending (step func t s)) + {#interval#} = mset (pending s)"
  | (split) interval qa qb where "workers s ! t = Popped interval"
      and "\<not> tolerance_met func interval"
      and "enqueue (i1 func interval) (queue s) = Inr qa"
      and "enqueue (i2 func interval) qa = Inr qb"
      and "step func t s = s\<lparr>queue := qb, total := total s + 2,
             workers := (workers s)[t := AtLoopHead]\<rparr>"
      and "top_ok (queue s) \<longrightarrow> mset (pending (step func t s)) + {#interval#}
             = mset (pending s) + {#i1 func interval, i2 func interval#}"
  | (full1) interval where "workers s ! t = Popped interval"
      and "\<not> tolerance_met func interval"
      and "step func t s = s\<lparr>status := Exited1 QueueFull\<rparr>"
  | (full2) interval qa where "workers s ! t = Popped interval"
      and "\<not> tolerance_met func interval"
      and "enqueue (i1 func interval) (queue s) = Inr qa"
      and "step func t s = s\<lparr>queue := qa, status := Exited1 QueueFull\<rparr>"
      and "top_ok (queue s) \<longrightarrow>
             mset (pending (step func t s)) = mset (pending s) + {#i1 func interval#}"
  | (idle) "workers s ! t = LeftLoop" and "step func t s = s"
proof (cases "workers s ! t")
  case AtLoopHead
  show ?thesis
  proof (cases "isempty (queue s)")
    case True
    with AtLoopHead assms have st: "step func t s = s\<lparr>workers := (workers s)[t := LeftLoop]\<rparr>"
      by (simp add: step_def fetch_def)
    from held_update [OF assms(2), of LeftLoop] AtLoopHead
    have "mset (pending (step func t s)) = mset (pending s)"
      by (simp add: st pending_def)
    with AtLoopHead True st show ?thesis by (rule leave)
  next
    case False
    then obtain interval q' where de: "dequeue (queue s) = Inr (interval, q')"
      by (auto simp: isempty_def dequeue_def)
    with False AtLoopHead assms
    have st: "step func t s = s\<lparr>queue := q', workers := (workers s)[t := Popped interval]\<rparr>"
      by (simp add: step_def fetch_def)
    have "top_ok (queue s) \<longrightarrow> mset (pending (step func t s)) = mset (pending s)"
    proof
      assume "top_ok (queue s)"
      then have "- 1 \<le> top (queue s)" by (simp add: top_ok_def)
      from contents_dequeue [OF de this] held_update [OF assms(2), of "Popped interval"] AtLoopHead
      show "mset (pending (step func t s)) = mset (pending s)"
        by (simp add: st pending_def)
    qed
    with AtLoopHead de st show ?thesis by (rule pop)
  qed
next
  case (Popped interval)
  show ?thesis
  proof (cases "tolerance_met func interval")
    case True
    with Popped assms have st: "step func t s = accept func t interval s"
      by (simp add: step_def)
    from held_update [OF assms(2), of AtLoopHead] Popped
    have "mset (pending (step func t s)) + {#interval#} = mset (pending s)"
      by (simp add: st accept_def Let_def pending_def)
    with Popped True st show ?thesis by (rule accept)
  next
    case False
    with Popped assms have st: "step func t s = split func t interval s"
      by (simp add: step_def)
    show ?thesis
    proof (cases "enqueue (i1 func interval) (queue s)")
      case (Inl err)
      with st have "step func t s = s\<lparr>status := Exited1 QueueFull\<rparr>"
        by (simp add: split_def enqueue_error)
      with Popped False show ?thesis by (rule full1)
    next
      case qa: (Inr qa)
      show ?thesis
      proof (cases "enqueue (i2 func interval) qa")
        case (Inl err)
        with st qa have st': "step func t s = s\<lparr>queue := qa, status := Exited1 QueueFull\<rparr>"
          by (simp add: split_def enqueue_error)
        have "top_ok (queue s) \<longrightarrow>
             mset (pending (step func t s)) = mset (pending s) + {#i1 func interval#}"
        proof
          assume "top_ok (queue s)"
          then have "- 1 \<le> top (queue s)" by (simp add: top_ok_def)
          from contents_enqueue [OF qa this]
          show "mset (pending (step func t s)) = mset (pending s) + {#i1 func interval#}"
            by (simp add: st' pending_def)
        qed
        with Popped False qa st' show ?thesis by (rule full2)
      next
        case qb: (Inr qb)
        with st qa have st': "step func t s = s\<lparr>queue := qb, total := total s + 2,
             workers := (workers s)[t := AtLoopHead]\<rparr>"
          by (simp add: split_def)
        have "top_ok (queue s) \<longrightarrow> mset (pending (step func t s)) + {#interval#}
             = mset (pending s) + {#i1 func interval, i2 func interval#}"
        proof
          assume ok: "top_ok (queue s)"
          then have lo: "- 1 \<le> top (queue s)" by (simp add: top_ok_def)
          from top_ok_enqueue [OF qa ok] have "- 1 \<le> top qa" by (simp add: top_ok_def)
          from contents_enqueue [OF qb this] contents_enqueue [OF qa lo]
          have "contents qb = contents (queue s) @ [i1 func interval, i2 func interval]"
            by simp
          with held_update [OF assms(2), of AtLoopHead] Popped
          show "mset (pending (step func t s)) + {#interval#}
             = mset (pending s) + {#i1 func interval, i2 func interval#}"
            by (simp add: st' pending_def)
        qed
        with Popped False qa qb st' show ?thesis by (rule split)
      qed
    qed
  qed
next
  case LeftLoop
  with assms have "step func t s = s" by (simp add: step_def)
  with LeftLoop show ?thesis by (rule idle)
qed

lemma run_append: "run func (xs @ ys) s = run func ys (run func xs s)"
  by (induction xs arbitrary: s) simp_all

section \<open>Invariants of every run\<close>

text \<open>
  A step changes the multiset of the intervals still to be treated in one of four ways;
  what holds of that multiset is carried from one state to the next by these facts.
\<close>

lemma list_all_mset:
  assumes "mset xs + A = mset ys + B" and "list_all P ys" and "\<forall>x. x \<in># B \<longrightarrow> P x"
  shows "list_all P xs"
proof -
  have "P x" if "x \<in> set xs" for x
  proof -
    from that have "x \<in># mset xs + A" by simp
    with assms(1) have "x \<in># mset ys + B" by simp
    then have "x \<in> set ys \<or> x \<in># B" by simp
    with assms(2,3) show ?thesis by (auto simp: list_all_iff)
  qed
  then show ?thesis by (simp add: list_all_iff)
qed



lemma counters_inv_start: "counters_inv (start func a b eps memory n)"
  by (simp add: counters_inv_def start_def enqueue_def init_def top_ok_def MAXQUEUE_def
      pending_def contents_def)

lemma counters_inv_step:
  assumes "counters_inv s"
  shows "counters_inv (step func t s)"
proof (cases "status s = Running \<and> t < length (workers s)")
  case False
  then have "step func t s = s" by (auto simp: step_def)
  with assms show ?thesis by simp
next
  case True
  then have run: "status s = Running" and t: "t < length (workers s)" by simp_all
  from assms have ok: "top_ok (queue s)" by (simp add: counters_inv_def)
  from assms run have eq: "2 * (total_processed s + int (length (pending s))) = total s + 1"
    by (simp add: counters_inv_def)
  from run t show ?thesis
  proof (cases rule: step_effect [where func = func])
    case leave
    from leave(4) have "length (pending (step func t s)) = length (pending s)"
      by (rule mset_eq_length)
    with assms run show ?thesis
      by (simp add: counters_inv_def leave(3))
  next
    case (pop interval q')
    from pop(4) ok have "mset (pending (step func t s)) = mset (pending s)" by simp
    then have "length (pending (step func t s)) = length (pending s)"
      by (rule mset_eq_length)
    moreover from top_ok_dequeue [OF pop(2) ok] have "top_ok q'" .
    ultimately show ?thesis using assms run
      by (simp add: counters_inv_def pop(3))
  next
    case (accept interval)
    from accept(4) have "size (mset (pending (step func t s)) + {#interval#})
        = size (mset (pending s))" by simp
    then have len: "int (length (pending s)) = int (length (pending (step func t s))) + 1"
      by simp
    have flds: "total (step func t s) = total s"
      "total_processed (step func t s) = total_processed s + 1"
      "queue (step func t s) = queue s"
      "status (step func t s) = (if total_processed s + 1 = total s then Exited0 else Running)"
      by (simp_all add: accept(3) accept_fields run)
    from assms have "0 \<le> total_processed s" and "odd (total s)"
      by (simp_all add: counters_inv_def)
    with eq len ok show ?thesis
      unfolding counters_inv_def flds by auto
  next
    case (split interval qa qb)
    from split(6) ok have "size (mset (pending (step func t s)) + {#interval#})
        = size (mset (pending s) + {#i1 func interval, i2 func interval#})" by simp
    then have len: "int (length (pending (step func t s))) = int (length (pending s)) + 1"
      by simp
    from top_ok_enqueue [OF split(4) top_ok_enqueue [OF split(3) ok]] have okb: "top_ok qb" .
    have flds: "total (step func t s) = total s + 2"
      "total_processed (step func t s) = total_processed s"
      "status (step func t s) = Running" "queue (step func t s) = qb"
      by (simp_all add: split(5) run)
    from assms eq len okb show ?thesis
      unfolding counters_inv_def flds by simp
  next
    case (full1 interval)
    with assms show ?thesis by (simp add: counters_inv_def)
  next
    case (full2 interval qa)
    from top_ok_enqueue [OF full2(3) ok] have "top_ok qa" .
    with assms show ?thesis by (simp add: counters_inv_def full2(4))
  next
    case idle
    with assms show ?thesis by simp
  qed
qed

lemma counters_inv_run: "counters_inv s \<Longrightarrow> counters_inv (run func sched s)"
  by (induction sched arbitrary: s) (simp_all add: counters_inv_step)

lemma quiescent_inv_start: "0 < n \<Longrightarrow> quiescent_inv (start func a b eps memory n)"
  by (cases n) (simp_all add: quiescent_inv_def start_def enqueue_def init_def MAXQUEUE_def)

lemma not_all_left:
  "t < length ws \<Longrightarrow> w \<noteq> LeftLoop \<Longrightarrow> \<not> list_all (\<lambda>w. w = LeftLoop) (ws[t := w])"
  by (auto simp: list_all_iff dest: set_update_memI)

lemma quiescent_inv_step:
  assumes "quiescent_inv s"
  shows "quiescent_inv (step func t s)"
proof (cases "status s = Running \<and> t < length (workers s)")
  case False
  then have "step func t s = s" by (auto simp: step_def)
  with assms show ?thesis by simp
next
  case True
  then have run: "status s = Running" and t: "t < length (workers s)" by simp_all
  have live: "\<And>v. workers s ! t \<noteq> LeftLoop \<Longrightarrow> \<not> list_all (\<lambda>w. w = LeftLoop) (workers s)"
    using t by (auto simp: list_all_iff dest: nth_mem)
  from run t show ?thesis
  proof (cases rule: step_effect [where func = func])
    case leave
    then show ?thesis by (simp add: quiescent_inv_def)
  next
    case (pop interval q')
    with t show ?thesis by (simp add: quiescent_inv_def not_all_left)
  next
    case (accept interval)
    with t show ?thesis by (simp add: quiescent_inv_def accept_fields not_all_left)
  next
    case (split interval qa qb)
    with t show ?thesis by (simp add: quiescent_inv_def not_all_left)
  next
    case (full1 interval)
    with live show ?thesis by (simp add: quiescent_inv_def)
  next
    case (full2 interval qa)
    with live show ?thesis by (simp add: quiescent_inv_def)
  next
    case idle
    with assms show ?thesis by simp
  qed
qed

lemma quiescent_inv_run: "quiescent_inv s \<Longrightarrow> quiescent_inv (run func sched s)"
  by (induction sched arbitrary: s) (simp_all add: quiescent_inv_step)

lemma held_all_left: "list_all (\<lambda>w. w = LeftLoop) ws \<Longrightarrow> concat (map popped ws) = []"
  by (induction ws) auto

lemma returned_pending:
  assumes "quiescent_inv s" and "returned s = Some v"
  shows "pending s = []"
proof -
  from assms(2) have all: "list_all (\<lambda>w. w = LeftLoop) (workers s)"
    by (simp add: returned_def split: if_splits)
  with assms(1) have "isempty (queue s)" by (simp add: quiescent_inv_def)
  then have "contents (queue s) = []" by (simp add: isempty_def contents_def)
  with held_all_left [OF all] show ?thesis by (simp add: pending_def)
qed


section \<open>A run with a split, and the runs without any\<close>


lemma constant_met: "tolerance_met (\<lambda>x. 5) (whole (\<lambda>x. 5) 0 10 (1 / 10 ^ 6))"
  by (simp add: kernel_defs whole_def)

lemma unsplit_inv_start: "unsplit_inv (whole func a b eps) (start func a b eps memory n)"
  by (simp add: unsplit_inv_def start_def enqueue_def init_def top_ok_def MAXQUEUE_def
      pending_def contents_def)

lemma unsplit_inv_step:
  assumes "unsplit_inv seed s" and met: "tolerance_met func seed"
  shows "unsplit_inv seed (step func t s)"
proof (cases "status s = Running \<and> t < length (workers s)")
  case False
  then have "step func t s = s" by (auto simp: step_def)
  with assms show ?thesis by simp
next
  case True
  then have run: "status s = Running" and t: "t < length (workers s)" by simp_all
  from assms have ok: "top_ok (queue s)" and one: "total s = 1"
    and p: "list_all (\<lambda>interval. interval = seed) (pending s)"
    by (simp_all add: unsplit_inv_def)
  have held: "interval = seed" if "workers s ! t = Popped interval" for interval
    using popped_pending [OF t that] p by (simp add: list_all_iff)
  from run t show ?thesis
  proof (cases rule: step_effect [where func = func])
    case leave
    from leave(4) have "mset (pending (step func t s)) + {#} = mset (pending s) + {#}" by simp
    from list_all_mset [OF this p]
    have "list_all (\<lambda>interval. interval = seed) (pending (step func t s))" by simp
    with ok one show ?thesis by (simp add: unsplit_inv_def leave(3))
  next
    case (pop interval q')
    from pop(4) ok
    have "mset (pending (step func t s)) + {#} = mset (pending s) + {#}" by simp
    from list_all_mset [OF this p]
    have "list_all (\<lambda>interval. interval = seed) (pending (step func t s))" by simp
    moreover from top_ok_dequeue [OF pop(2) ok] have "top_ok q'" .
    ultimately show ?thesis using one by (simp add: unsplit_inv_def pop(3))
  next
    case (accept interval)
    from accept(4)
    have "mset (pending (step func t s)) + {#interval#} = mset (pending s) + {#}" by simp
    from list_all_mset [OF this p]
    have "list_all (\<lambda>interval. interval = seed) (pending (step func t s))" by simp
    with ok one show ?thesis by (simp add: unsplit_inv_def accept(3) accept_fields)
  next
    case (split interval qa qb)
    with held met show ?thesis by simp
  next
    case (full1 interval)
    with held met show ?thesis by simp
  next
    case (full2 interval qa)
    with held met show ?thesis by simp
  next
    case idle
    with assms show ?thesis by simp
  qed
qed

lemma unsplit_inv_run:
  "unsplit_inv seed s \<Longrightarrow> tolerance_met func seed \<Longrightarrow> unsplit_inv seed (run func sched s)"
  by (induction sched arbitrary: s) (simp_all add: unsplit_inv_step)

text \<open>
  If the whole interval meets the tolerance at once, \<open>simpson\<close> never returns: the thread
  that accepts it finds \<open>total_processed == total\<close> and calls \<open>exit(0)\<close>.
\<close>

lemma accepted_at_once_never_returns:
  assumes "tolerance_met func (whole func a b eps)" and "0 < n"
  shows "returned (run func sched (start func a b eps memory n)) = None"
proof (rule ccontr)
  let ?s = "run func sched (start func a b eps memory n)"
  assume "returned ?s \<noteq> None"
  then obtain v where v: "returned ?s = Some v" by auto
  then have run: "status ?s = Running" by (simp add: returned_def split: if_splits)
  from assms(2) have "quiescent_inv ?s"
    by (intro quiescent_inv_run quiescent_inv_start)
  from returned_pending [OF this v] have p: "pending ?s = []" .
  have "counters_inv ?s" by (intro counters_inv_run counters_inv_start)
  with run p have "total_processed ?s \<noteq> total ?s" and "2 * total_processed ?s = total ?s + 1"
    by (simp_all add: counters_inv_def)
  moreover from assms(1) have "unsplit_inv (whole func a b eps) ?s"
    by (intro unsplit_inv_run unsplit_inv_start)
  then have "total ?s = 1" by (simp add: unsplit_inv_def)
  ultimately show False by simp
qed

section \<open>The midpoint of two adjacent doubles\<close>

lemma floor_log2:
  assumes "2 ^ n \<le> x" and "x < 2 ^ Suc n"
  shows "\<lfloor>log 2 x\<rfloor> = int n"
proof -
  from assms(1) have pos: "0 < x"
    by (rule less_le_trans [rotated]) simp
  have "real n \<le> log 2 x"
    using assms(1) pos by (simp add: le_log_iff powr_realpow)
  moreover have "log 2 x < real n + 1"
    using assms(2) pos by (simp add: log_less_iff powr_realpow powr_add)
  ultimately show ?thesis by (simp add: floor_eq_iff)
qed












section \<open>The depth of the refinement\<close>

lemma leaves_nonempty: "leaves func interval \<noteq> []"
  by (induction func interval rule: leaves.induct) (subst leaves.simps, simp)

lemma simpson_leaves:
  "simpson func interval = sum_list (map (contribution func) (leaves func interval))"
proof (induction func interval rule: simpson.induct)
  case (1 func interval)
  show ?case
  proof (cases "tolerance_met func interval")
    case True
    then show ?thesis by (subst simpson.simps, subst leaves.simps) simp
  next
    case False
    with "1.IH" show ?thesis by (subst simpson.simps, subst leaves.simps) simp
  qed
qed

lemma halvings_pos:
  assumes "\<not> tolerance_met func interval"
  shows "1 \<le> halvings (var_h interval)"
  using halvings_children(1) [OF assms] by simp

lemma halvings_binade:
  assumes "2 ^ n \<le> w * 10 ^ 12" and "w * 10 ^ 12 < 2 ^ Suc n"
  shows "halvings w = Suc n"
proof -
  from assms(1) have "1 \<le> w * 10 ^ 12"
    by (rule order_trans [rotated]) simp
  then have "\<not> w < 1 / 10 ^ 12" by (simp add: field_simps)
  with floor_log2 [OF assms] show ?thesis by (simp add: halvings_def)
qed


lemma halvings_1024: "halvings (1 / 1024) = 30"
  using halvings_binade [of 29 "1 / 1024"] by simp

lemma halvings_Suc:
  assumes "\<not> w < 1 / 10 ^ 12"
  shows "halvings w = Suc (halvings (w / 2))"
proof (cases "w / 2 < 1 / 10 ^ 12")
  case True
  with assms have "1 \<le> w * 10 ^ 12" and "w * 10 ^ 12 < 2"
    by (simp_all add: field_simps)
  then have "2 ^ 0 \<le> w * 10 ^ 12" and "w * 10 ^ 12 < 2 ^ Suc 0" by simp_all
  from halvings_binade [OF this] True show ?thesis by (simp add: halvings_def)
next
  case False
  define x where "x = log 2 (w * 10 ^ 12)"
  define y where "y = log 2 (w / 2 * 10 ^ 12)"
  from False have pos: "1 \<le> w / 2 * 10 ^ 12" by (simp add: field_simps)
  then have "0 < w * 10 ^ 12" by simp
  then have "log 2 (w * 10 ^ 12 / 2) = log 2 (w * 10 ^ 12) - log 2 2"
    by (rule log_divide_pos) simp
  moreover have "w / 2 * 10 ^ 12 = w * 10 ^ 12 / 2" by simp
  ultimately have yx: "y = x - 1" by (simp add: x_def y_def)
  have "(0 \<le> log 2 (w / 2 * 10 ^ 12)) = (1 \<le> w / 2 * 10 ^ 12)"
    using pos by (intro zero_le_log_cancel_iff) simp_all
  with pos have y0: "0 \<le> y" by (simp only: y_def)
  from yx have "\<lfloor>y\<rfloor> = \<lfloor>x\<rfloor> - 1" by simp
  moreover from y0 have "0 \<le> \<lfloor>y\<rfloor>" by simp
  ultimately have "nat \<lfloor>y\<rfloor> + 1 = nat \<lfloor>x\<rfloor>" by linarith
  moreover from assms False have "halvings (w / 2) = nat \<lfloor>y\<rfloor> + 1"
    and "halvings w = nat \<lfloor>x\<rfloor> + 1"
    by (simp_all add: halvings_def x_def y_def)
  ultimately show ?thesis by linarith
qed



text \<open>
  The integrand 0 with tolerance 0: the test \<open>fabs(q2 - q1) < tol\<close> is \<open>0 < 0\<close>, so an
  interval is accepted only below the floor, and the refinement is the complete binary
  tree.
\<close>

lemma zero_met:
  assumes "tol x = 0" and "f_left x = 0" and "f_mid x = 0" and "f_right x = 0"
  shows "tolerance_met (\<lambda>x. 0) x = (var_h x < 1 / 10 ^ 12)"
  using assms by (simp add: kernel_defs)

lemma leaves_count:
  assumes "halvings (var_h x) = k"
    and "tol x = 0" and "f_left x = 0" and "f_mid x = 0" and "f_right x = 0"
  shows "length (leaves (\<lambda>x. 0) x) = 2 ^ k"
  using assms
proof (induction k arbitrary: x)
  case 0
  then have "var_h x < 1 / 10 ^ 12" by (simp add: halvings_def split: if_splits)
  with zero_met [OF "0.prems"(2-5)] have "tolerance_met (\<lambda>x. 0) x" by simp
  then show ?case by (subst leaves.simps) simp
next
  case (Suc k)
  then have big: "\<not> var_h x < 1 / 10 ^ 12" by (auto simp: halvings_def)
  with zero_met [OF Suc.prems(2-5)] have nm: "\<not> tolerance_met (\<lambda>x. 0) x" by simp
  from halvings_Suc [OF big] Suc.prems(1) have hk: "halvings (var_h x / 2) = k" by simp
  have v: "var_h (i1 (\<lambda>x. 0) x) = var_h x / 2" "var_h (i2 (\<lambda>x. 0) x) = var_h x / 2"
    by (simp_all add: var_h_def i1_def i2_def var_c_def field_simps)
  have h: "halvings (var_h (i1 (\<lambda>x. 0) x)) = k" "halvings (var_h (i2 (\<lambda>x. 0) x)) = k"
    unfolding v by (rule hk)+
  have "length (leaves (\<lambda>x. 0) (i1 (\<lambda>x. 0) x)) = 2 ^ k"
    using Suc.prems(2-5) by (intro Suc.IH h) (simp_all add: i1_def fd_def)
  moreover have "length (leaves (\<lambda>x. 0) (i2 (\<lambda>x. 0) x)) = 2 ^ k"
    using Suc.prems(2-5) by (intro Suc.IH h) (simp_all add: i2_def fe_def)
  ultimately show ?case using nm by (subst leaves.simps) simp
qed

section \<open>One thread treating the interval on top of the stack\<close>

text \<open>
  The step of a thread that holds an interval failing the test, when the queue has room
  for the two halves.
\<close>

lemma split_step:
  assumes "status s = Running" and "t < length (workers s)"
    and "workers s ! t = Popped interval" and "\<not> tolerance_met func interval"
    and "top_ok (queue s)" and "size_queue (queue s) + 2 \<le> MAXQUEUE"
  shows "contents (queue (step func t s))
           = contents (queue s) @ [i1 func interval, i2 func interval]"
    and "status (step func t s) = Running"
    and "total (step func t s) = total s + 2"
    and "total_processed (step func t s) = total_processed s"
    and "workers (step func t s) = (workers s)[t := AtLoopHead]"
proof -
  from assms(5) have lo: "- 1 \<le> top (queue s)" by (simp add: top_ok_def)
  from length_contents [OF lo] assms(6)
  have "int (length (contents (queue s))) < MAXQUEUE" by simp
  from enqueue_room [OF assms(5) this, of "i1 func interval"]
  obtain qa where qa: "enqueue (i1 func interval) (queue s) = Inr qa" and oka: "top_ok qa"
    and ca: "contents qa = contents (queue s) @ [i1 func interval]" by blast
  from oka have "- 1 \<le> top qa" by (simp add: top_ok_def)
  from ca length_contents [OF lo] assms(6)
  have "int (length (contents qa)) < MAXQUEUE" by simp
  from enqueue_room [OF oka this, of "i2 func interval"]
  obtain qb where qb: "enqueue (i2 func interval) qa = Inr qb"
    and cb: "contents qb = contents qa @ [i2 func interval]" by blast
  from assms(1-4) qa qb
  have st: "step func t s = s\<lparr>queue := qb, total := total s + 2,
      workers := (workers s)[t := AtLoopHead]\<rparr>"
    by (simp add: step_def split_def)
  from ca cb show "contents (queue (step func t s))
           = contents (queue s) @ [i1 func interval, i2 func interval]"
    by (simp add: st)
  from assms(1) show "status (step func t s) = Running" by (simp add: st)
  show "total (step func t s) = total s + 2"
    and "total_processed (step func t s) = total_processed s"
    and "workers (step func t s) = (workers s)[t := AtLoopHead]"
    by (simp_all add: st)
qed

lemma single_pop:
  assumes run: "status s = Running" and w: "workers s = [AtLoopHead]"
    and ok: "top_ok (queue s)" and st: "contents (queue s) = st @ [x]"
  shows "\<exists>q'. step func 0 s = s\<lparr>queue := q', workers := [Popped x]\<rparr>
           \<and> top_ok q' \<and> contents q' = st"
proof -
  from ok have lo: "- 1 \<le> top (queue s)" by (simp add: top_ok_def)
  from st have "top (queue s) \<noteq> - 1" by (auto simp: contents_def)
  then obtain i q' where de: "dequeue (queue s) = Inr (i, q')"
    by (auto simp: dequeue_def)
  from contents_dequeue [OF de lo] st have "i = x" and "contents q' = st" by simp_all
  moreover from top_ok_dequeue [OF de ok] have "top_ok q'" .
  moreover from de run w \<open>top (queue s) \<noteq> - 1\<close> \<open>i = x\<close>
  have "step func 0 s = s\<lparr>queue := q', workers := [Popped x]\<rparr>"
    by (simp add: step_def fetch_def isempty_def)
  ultimately show ?thesis by blast
qed

text \<open>
  One thread treating the interval on top of the stack: it pops it and, after \<open>visits\<close>
  steps, the stack is back to what was below it, and the thread has accepted the leaves of
  the interval from right to left and added their contributions to \<open>quad\<close>.
\<close>

lemma single_thread_visits:
  assumes "status s = Running" and "workers s = [AtLoopHead]"
    and "top_ok (queue s)" and "contents (queue s) = st @ [x]"
    and "int (length st) + int (halvings (var_h x)) + 1 \<le> MAXQUEUE"
    and "2 * (total_processed s + int (length st) + 1) = total s + 1"
    and "0 \<le> total_processed s"
    and "tolerance_met func x \<longrightarrow> 1 \<le> total_processed s \<or> st \<noteq> []"
  shows "treated func st x s (run func (replicate (visits func x) 0) s)"
  using assms
proof (induction func x arbitrary: s st rule: leaves.induct)
  case (1 func x)
  from single_pop [OF "1.prems"(1-4), of func]
  obtain q' where s1: "step func 0 s = s\<lparr>queue := q', workers := [Popped x]\<rparr>"
    and ok': "top_ok q'" and c': "contents q' = st"
    by blast
  let ?s1 = "s\<lparr>queue := q', workers := [Popped x]\<rparr>"
  show ?case
  proof (cases "tolerance_met func x")
    case True
    with "1.prems"(6,7,8) have ne: "total_processed s + 1 \<noteq> total s"
      by (cases st) auto
    define s2 where "s2 = ?s1\<lparr>quad := quad s + contribution func x,
                 total_processed := total_processed s + 1,
                 workers := [AtLoopHead],
                 accepted := accepted s @ [x]\<rparr>"
    from True "1.prems"(1) ne have "step func 0 ?s1 = s2"
      by (simp add: step_def accept_def s2_def)
    then have r: "run func (replicate 2 0) s = s2"
      by (simp add: numeral_2_eq_2 s1)
    have lv: "leaves func x = [x]" using True by (subst leaves.simps) simp
    have "treated func st x s s2"
      unfolding treated_def lv using "1.prems"(1) ok' c' by (simp add: s2_def)
    moreover have "visits func x = 2" by (simp add: visits_def lv)
    ultimately show ?thesis by (simp only: r)
  next
    case False
    from halvings_pos [OF False] "1.prems"(5) c'
    have room1: "int (length (contents q')) < MAXQUEUE" by simp
    from enqueue_room [OF ok' room1, of "i1 func x"]
    obtain qa where qa: "enqueue (i1 func x) q' = Inr qa" and oka: "top_ok qa"
      and ca: "contents qa = st @ [i1 func x]"
      using c' by auto
    from halvings_pos [OF False] "1.prems"(5) ca
    have room2: "int (length (contents qa)) < MAXQUEUE" by simp
    from enqueue_room [OF oka room2, of "i2 func x"]
    obtain qb where qb: "enqueue (i2 func x) qa = Inr qb" and okb: "top_ok qb"
      and cb: "contents qb = (st @ [i1 func x]) @ [i2 func x]"
      using ca by auto
    define s2 where "s2 = ?s1\<lparr>queue := qb, total := total s + 2, workers := [AtLoopHead]\<rparr>"
    from False "1.prems"(1) qa qb have st2: "step func 0 ?s1 = s2"
      by (simp add: step_def split_def s2_def)
    have r2: "run func (replicate 2 0) s = s2"
      by (simp add: numeral_2_eq_2 s1 st2)
    have s2f: "quad s2 = quad s" "accepted s2 = accepted s"
      "total_processed s2 = total_processed s" "total s2 = total s + 2"
      by (simp_all add: s2_def)
    \<comment> \<open>the right half, with the left half below it\<close>
    have p2: "status s2 = Running" "workers s2 = [AtLoopHead]" "top_ok (queue s2)"
      "contents (queue s2) = (st @ [i1 func x]) @ [i2 func x]"
      using "1.prems"(1) okb cb by (simp_all add: s2_def)
    from halvings_children(2) [OF False] "1.prems"(5)
    have cap2: "int (length (st @ [i1 func x])) + int (halvings (var_h (i2 func x))) + 1
        \<le> MAXQUEUE" by simp
    from "1.prems"(6) s2f
    have bal2: "2 * (total_processed s2 + int (length (st @ [i1 func x])) + 1) = total s2 + 1"
      by simp
    from "1.prems"(7) s2f have nn2: "0 \<le> total_processed s2" by simp
    have ex2: "tolerance_met func (i2 func x) \<longrightarrow>
        1 \<le> total_processed s2 \<or> st @ [i1 func x] \<noteq> []" by simp
    define k2 where "k2 = visits func (i2 func x)"
    define s3 where "s3 = run func (replicate k2 0) s2"
    from "1.IH"(2) [OF False p2 cap2 bal2 nn2 ex2]
    have t3: "treated func (st @ [i1 func x]) (i2 func x) s2 s3"
      by (simp only: s3_def k2_def)
    then have p3: "status s3 = Running" "workers s3 = [AtLoopHead]" "top_ok (queue s3)"
      "contents (queue s3) = st @ [i1 func x]"
      and v3: "quad s3 = quad s2 + sum_list (map (contribution func) (leaves func (i2 func x)))"
      "accepted s3 = accepted s2 @ rev (leaves func (i2 func x))"
      "total_processed s3 = total_processed s2 + int (length (leaves func (i2 func x)))"
      "total s3 = total s2 + 2 * (int (length (leaves func (i2 func x))) - 1)"
      by (simp_all add: treated_def)
    \<comment> \<open>the left half\<close>
    from halvings_children(1) [OF False] "1.prems"(5)
    have cap3: "int (length st) + int (halvings (var_h (i1 func x))) + 1 \<le> MAXQUEUE"
      by simp
    from bal2 v3(3,4)
    have bal3: "2 * (total_processed s3 + int (length st) + 1) = total s3 + 1"
      by simp
    have "1 \<le> int (length (leaves func (i2 func x)))"
      using leaves_nonempty [of func "i2 func x"] by (cases "leaves func (i2 func x)") auto
    with nn2 v3(3) have pos3: "1 \<le> total_processed s3" by simp
    then have nn3: "0 \<le> total_processed s3"
      and ex3: "tolerance_met func (i1 func x) \<longrightarrow> 1 \<le> total_processed s3 \<or> st \<noteq> []"
      by simp_all
    define k1 where "k1 = visits func (i1 func x)"
    define s4 where "s4 = run func (replicate k1 0) s3"
    from "1.IH"(1) [OF False p3 cap3 bal3 nn3 ex3]
    have "treated func st (i1 func x) s3 s4"
      by (simp only: s4_def k1_def)
    then have p4: "status s4 = Running" "workers s4 = [AtLoopHead]" "top_ok (queue s4)"
      "contents (queue s4) = st"
      and v4: "quad s4 = quad s3 + sum_list (map (contribution func) (leaves func (i1 func x)))"
      "accepted s4 = accepted s3 @ rev (leaves func (i1 func x))"
      "total_processed s4 = total_processed s3 + int (length (leaves func (i1 func x)))"
      "total s4 = total s3 + 2 * (int (length (leaves func (i1 func x))) - 1)"
      by (simp_all add: treated_def)
    have "replicate (2 + k2 + k1) (0::nat) = replicate 2 0 @ replicate k2 0 @ replicate k1 0"
      by (simp only: replicate_add append_assoc)
    then have r: "run func (replicate (2 + k2 + k1) 0) s = s4"
      by (simp only: run_append r2 s3_def s4_def)
    have lv: "leaves func x = leaves func (i1 func x) @ leaves func (i2 func x)"
      using False by (subst leaves.simps) simp
    have "quad s4 = quad s + sum_list (map (contribution func) (leaves func x))"
      unfolding lv v4(1) v3(1) s2f by simp
    moreover have "accepted s4 = accepted s @ rev (leaves func x)"
      unfolding lv v4(2) v3(2) s2f by simp
    moreover have "total_processed s4 = total_processed s + int (length (leaves func x))"
      unfolding lv v4(3) v3(3) s2f by simp
    moreover have "total s4 = total s + 2 * (int (length (leaves func x)) - 1)"
      unfolding lv v4(4) v3(4) s2f by simp
    ultimately have "treated func st x s s4"
      unfolding treated_def using p4 by blast
    moreover have "1 \<le> length (leaves func (i1 func x))"
      using leaves_nonempty [of func "i1 func x"] by (cases "leaves func (i1 func x)") auto
    with \<open>1 \<le> int (length (leaves func (i2 func x)))\<close>
    have "visits func x = 2 + k2 + k1"
      unfolding visits_def k1_def k2_def lv by simp
    ultimately show ?thesis by (simp only: r)
  qed
qed

lemma single_thread_subtree:
  assumes "status s = Running" and "workers s = [AtLoopHead]"
    and "top_ok (queue s)" and "contents (queue s) = st @ [x]"
    and "int (length st) + int (halvings (var_h x)) + 1 \<le> MAXQUEUE"
    and "2 * (total_processed s + int (length st) + 1) = total s + 1"
    and "0 \<le> total_processed s"
    and "tolerance_met func x \<longrightarrow> 1 \<le> total_processed s \<or> st \<noteq> []"
  shows "\<exists>k. treated func st x s (run func (replicate k 0) s)"
  using single_thread_visits [OF assms] ..

section \<open>A run that takes \<open>total\<close> past \<open>INT_MAX\<close>, and a run with one split\<close>

text \<open>
  The integrand 0 on \<open>[0, 1/512]\<close> with tolerance 0 and one thread. The two end points
  and every point of the refinement are multiples of \<open>2^-40\<close> below \<open>2^-9\<close>, so every
  midpoint and every width is computed exactly in binary64 too. The first two steps pop
  the whole interval and push its halves.
\<close>

lemma zero_run_split:
  "status (run (\<lambda>x. 0) [0, 0] (start (\<lambda>x. 0) 0 (1 / 512) 0 memory 1)) = Running"
  "workers (run (\<lambda>x. 0) [0, 0] (start (\<lambda>x. 0) 0 (1 / 512) 0 memory 1)) = [AtLoopHead]"
  "top (queue (run (\<lambda>x. 0) [0, 0] (start (\<lambda>x. 0) 0 (1 / 512) 0 memory 1))) = 1"
  "entry (queue (run (\<lambda>x. 0) [0, 0] (start (\<lambda>x. 0) 0 (1 / 512) 0 memory 1))) 0
     = i1 (\<lambda>x. 0) (whole (\<lambda>x. 0) 0 (1 / 512) 0)"
  "entry (queue (run (\<lambda>x. 0) [0, 0] (start (\<lambda>x. 0) 0 (1 / 512) 0 memory 1))) 1
     = i2 (\<lambda>x. 0) (whole (\<lambda>x. 0) 0 (1 / 512) 0)"
  "total (run (\<lambda>x. 0) [0, 0] (start (\<lambda>x. 0) 0 (1 / 512) 0 memory 1)) = 3"
  "total_processed (run (\<lambda>x. 0) [0, 0] (start (\<lambda>x. 0) 0 (1 / 512) 0 memory 1)) = 0"
  by (simp_all add: solver_defs kernel_defs)

lemma zero_right_half:
  "tol (i2 (\<lambda>x. 0) (whole (\<lambda>x. 0) 0 (1 / 512) 0)) = 0"
  "f_left (i2 (\<lambda>x. 0) (whole (\<lambda>x. 0) 0 (1 / 512) 0)) = 0"
  "f_mid (i2 (\<lambda>x. 0) (whole (\<lambda>x. 0) 0 (1 / 512) 0)) = 0"
  "f_right (i2 (\<lambda>x. 0) (whole (\<lambda>x. 0) 0 (1 / 512) 0)) = 0"
  "var_h (i2 (\<lambda>x. 0) (whole (\<lambda>x. 0) 0 (1 / 512) 0)) = 1 / 1024"
  by (simp_all add: kernel_defs whole_def)

lemma zero_run_overflow:
  "total (run (\<lambda>x. 0) (replicate 4294967296 0) (start (\<lambda>x. 0) 0 (1 / 512) 0 memory 1))
     = 2147483649"
  "total_processed (run (\<lambda>x. 0) (replicate 4294967296 0) (start (\<lambda>x. 0) 0 (1 / 512) 0 memory 1))
     = 1073741824"
proof -
  let ?f = "\<lambda>x::real. 0::real"
  let ?x = "whole ?f 0 (1 / 512) 0"
  define s2 where "s2 = run ?f [0, 0] (start ?f 0 (1 / 512) 0 memory 1)"
  note z = zero_run_split [of memory, folded s2_def]
  have len: "length (leaves ?f (i2 ?f ?x)) = 2 ^ 30"
    by (rule leaves_count [OF _ zero_right_half(1-4)])
      (simp only: zero_right_half(5) halvings_1024)
  then have v: "visits ?f (i2 ?f ?x) = 4294967294" by (simp add: visits_def)
  define s3 where "s3 = run ?f (replicate 4294967294 0) s2"
  have ok: "top_ok (queue s2)" by (simp add: top_ok_def MAXQUEUE_def z(3))
  have c: "contents (queue s2) = [i1 ?f ?x] @ [i2 ?f ?x]"
  proof -
    have "[0..1::int] = [0, 1]" by (simp add: upto_rec1)
    then show ?thesis by (simp add: contents_def z(3,4,5))
  qed
  have cap: "int (length [i1 ?f ?x]) + int (halvings (var_h (i2 ?f ?x))) + 1 \<le> MAXQUEUE"
    by (simp add: zero_right_half(5) halvings_1024 MAXQUEUE_def)
  have bal: "2 * (total_processed s2 + int (length [i1 ?f ?x]) + 1) = total s2 + 1"
    and nn: "0 \<le> total_processed s2"
    and ex: "tolerance_met ?f (i2 ?f ?x) \<longrightarrow> 1 \<le> total_processed s2 \<or> [i1 ?f ?x] \<noteq> []"
    by (simp_all add: z(6,7))
  from single_thread_visits [OF z(1,2) ok c cap bal nn ex]
  have "treated ?f [i1 ?f ?x] (i2 ?f ?x) s2 s3"
    by (simp only: v s3_def)
  then have "total s3 = total s2 + 2 * (int (length (leaves ?f (i2 ?f ?x))) - 1)"
    and "total_processed s3 = total_processed s2 + int (length (leaves ?f (i2 ?f ?x)))"
    by (simp_all add: treated_def)
  then have t: "total s3 = 2147483649" and p: "total_processed s3 = 1073741824"
    by (simp_all add: len z(6,7))
  have n: "(4294967296::nat) = 2 + 4294967294" by simp
  have "replicate 4294967296 (0::nat) = replicate 2 0 @ replicate 4294967294 0"
    by (subst n) (rule replicate_add)
  moreover have "replicate 2 (0::nat) = [0, 0]" by (simp add: numeral_2_eq_2)
  ultimately have "run ?f (replicate 4294967296 0) (start ?f 0 (1 / 512) 0 memory 1) = s3"
    by (simp only: run_append s2_def [symmetric] s3_def)
  with t p
  show "total (run ?f (replicate 4294967296 0) (start ?f 0 (1 / 512) 0 memory 1)) = 2147483649"
    and "total_processed (run ?f (replicate 4294967296 0) (start ?f 0 (1 / 512) 0 memory 1))
      = 1073741824"
    by (simp_all only:)
qed

text \<open>
  A run on the domain of \<open>main\<close> with a split: \<open>x^4\<close> on \<open>[0, 10]\<close> with tolerance 100 and
  one thread. After the first step the thread holds the whole interval, which fails the
  test; after the second the two halves are in the queue.
\<close>

lemma quartic_10_popped:
  "status (run (\<lambda>x. x * x * x * x) [0]
       (start (\<lambda>x. x * x * x * x) 0 10 100 \<lparr>entry = \<lambda>k. whole (\<lambda>x. 5) 0 10 1, top = 0\<rparr> 1))
     = Running"
  "workers (run (\<lambda>x. x * x * x * x) [0]
       (start (\<lambda>x. x * x * x * x) 0 10 100 \<lparr>entry = \<lambda>k. whole (\<lambda>x. 5) 0 10 1, top = 0\<rparr> 1))
     = [Popped (whole (\<lambda>x. x * x * x * x) 0 10 100)]"
  "top (queue (run (\<lambda>x. x * x * x * x) [0]
       (start (\<lambda>x. x * x * x * x) 0 10 100 \<lparr>entry = \<lambda>k. whole (\<lambda>x. 5) 0 10 1, top = 0\<rparr> 1)))
     = - 1"
  "total (run (\<lambda>x. x * x * x * x) [0]
       (start (\<lambda>x. x * x * x * x) 0 10 100 \<lparr>entry = \<lambda>k. whole (\<lambda>x. 5) 0 10 1, top = 0\<rparr> 1))
     = 1"
  "total_processed (run (\<lambda>x. x * x * x * x) [0]
       (start (\<lambda>x. x * x * x * x) 0 10 100 \<lparr>entry = \<lambda>k. whole (\<lambda>x. 5) 0 10 1, top = 0\<rparr> 1))
     = 0"
  by (simp_all add: solver_defs)

lemma quartic_10_not_met:
  "\<not> tolerance_met (\<lambda>x. x * x * x * x) (whole (\<lambda>x. x * x * x * x) 0 10 100)"
  by (simp add: kernel_defs whole_def)

lemma quartic_10_right:
  "status (run (\<lambda>x. x * x * x * x) [0, 0, 0]
          (start (\<lambda>x. x * x * x * x) 0 10 100 \<lparr>entry = \<lambda>k. whole (\<lambda>x. 5) 0 10 1, top = 0\<rparr> 1)) = Running"
  "workers (run (\<lambda>x. x * x * x * x) [0, 0, 0]
          (start (\<lambda>x. x * x * x * x) 0 10 100 \<lparr>entry = \<lambda>k. whole (\<lambda>x. 5) 0 10 1, top = 0\<rparr> 1))
     = [Popped (i2 (\<lambda>x. x * x * x * x) (whole (\<lambda>x. x * x * x * x) 0 10 100))]"
  "total (run (\<lambda>x. x * x * x * x) [0, 0, 0]
          (start (\<lambda>x. x * x * x * x) 0 10 100 \<lparr>entry = \<lambda>k. whole (\<lambda>x. 5) 0 10 1, top = 0\<rparr> 1)) = 3"
  "total_processed (run (\<lambda>x. x * x * x * x) [0, 0, 0]
          (start (\<lambda>x. x * x * x * x) 0 10 100 \<lparr>entry = \<lambda>k. whole (\<lambda>x. 5) 0 10 1, top = 0\<rparr> 1)) = 0"
  "tolerance_met (\<lambda>x. x * x * x * x)
     (i2 (\<lambda>x. x * x * x * x) (whole (\<lambda>x. x * x * x * x) 0 10 100))"
  by (simp_all add: solver_defs kernel_defs)

lemma quartic_10_end:
  "total (run (\<lambda>x. x * x * x * x) [0, 0, 0, 0, 0, 0, 0]
          (start (\<lambda>x. x * x * x * x) 0 10 100 \<lparr>entry = \<lambda>k. whole (\<lambda>x. 5) 0 10 1, top = 0\<rparr> 1)) = 3"
  "total_processed (run (\<lambda>x. x * x * x * x) [0, 0, 0, 0, 0, 0, 0]
          (start (\<lambda>x. x * x * x * x) 0 10 100 \<lparr>entry = \<lambda>k. whole (\<lambda>x. 5) 0 10 1, top = 0\<rparr> 1)) = 2"
  by (simp_all add: solver_defs kernel_defs)

section \<open>The refinement of \<open>[0, 10]\<close> in binary64\<close>















section \<open>Claim C1: leaving the loop on an empty store\<close>

text \<open>
  The variant with the flag does what the claim says: the flag is set exactly when, in the
  critical section, the store is empty and the counters agree, and a thread that finds
  the store empty while they differ goes round the loop again.
\<close>

lemma try_get_work_protocol:
  assumes "\<not> done_flag s"
  shows "done_flag (try_get_work t s) = (isempty (queue s) \<and> total_processed s = total s)"
    and "isempty (queue s) \<and> total_processed s \<noteq> total s \<Longrightarrow> try_get_work t s = s"
  using assms by (auto simp: try_get_work_def isempty_def dequeue_def)

text \<open>In solver2-1Queue.c a thread that finds the store empty leaves, whatever the counters.\<close>

lemma fetch_leaves_on_empty:
  assumes "status s = Running" and "t < length (workers s)"
    and "workers s ! t = AtLoopHead" and "isempty (queue s)"
  shows "workers (step func t s) ! t = LeftLoop"
  using assms by (simp add: step_def fetch_def)

text \<open>
  Claim C1 (solver2-1Queue.c breaks the claim). Two threads, any integrand and domain.
  Thread 0 pops the whole interval, then thread 1 enters the first critical section: the
  queue is empty, \<open>total_processed = 0\<close> and \<open>total = 1\<close> differ, thread 0 still holds the
  interval, and thread 1 leaves its loop for good instead of retrying.
\<close>

theorem C1_worker_leaves_on_empty_store:
  "status (run func [0, 1] (start func a b eps memory 2)) = Running
   \<and> workers (run func [0, 1] (start func a b eps memory 2))
       = [Popped (whole func a b eps), LeftLoop]
   \<and> isempty (queue (run func [0] (start func a b eps memory 2)))
   \<and> total_processed (run func [0] (start func a b eps memory 2)) = 0
   \<and> total (run func [0] (start func a b eps memory 2)) = 1"
  by (simp add: solver_defs numeral_2_eq_2)

section \<open>Claim C2: the refinement step\<close>

lemma q1_spec: "q1 interval = spec_q1 interval"
  by (simp add: q1_def spec_q1_def var_h_def)

lemma quarter_points:
  "var_d interval = quarter interval" "var_e interval = three_quarter interval"
  by (simp_all add: var_d_def var_e_def var_c_def quarter_def three_quarter_def field_simps)

lemma q2_spec: "q2 func interval = spec_q2 func interval"
  by (simp add: q2_def spec_q2_def var_h_def fd_def fe_def quarter_points)

lemma step_accepts:
  assumes "status s = Running" and "t < length (workers s)"
    and "workers s ! t = Popped interval" and "tolerance_met func interval"
  shows "quad (step func t s) = quad s + contribution func interval"
    and "total_processed (step func t s) = total_processed s + 1"
    and "accepted (step func t s) = accepted s @ [interval]"
    and "queue (step func t s) = queue s"
  using assms by (simp_all add: step_def accept_fields)

lemma step_splits:
  assumes "status s = Running" and "t < length (workers s)"
    and "workers s ! t = Popped interval" and "\<not> tolerance_met func interval"
  shows "quad (step func t s) = quad s"
    and "total_processed (step func t s) = total_processed s"
    and "accepted (step func t s) = accepted s"
  using assms by (simp_all add: step_def split_fields)

text \<open>
  Claim C2. For the interval a thread has popped, the estimates \<open>q1\<close> and \<open>q2\<close> of the
  code are the two formulas of the specification, with \<open>h = right - left\<close> and the fresh
  evaluations at the one-quarter and three-quarter points of \<open>[left, right]\<close>. The step of
  the thread accepts the interval if and only if \<open>|q2 - q1| < tol\<close> or \<open>right - left\<close>
  is below \<open>1e-12\<close>: then it adds \<open>q2 + (q2 - q1) / 15\<close> to \<open>quad\<close>, adds one to
  \<open>total_processed\<close> and the interval is accepted; otherwise \<open>quad\<close> and
  \<open>total_processed\<close> stay as they are and nothing is accepted.
\<close>

theorem C2_refinement_step:
  "q1 interval = spec_q1 interval
   \<and> q2 func interval = spec_q2 func interval
   \<and> tolerance_met func interval
       = (\<bar>spec_q2 func interval - spec_q1 interval\<bar> < tol interval
          \<or> right interval - left interval < 1 / 10 ^ 12)
   \<and> (status s = Running \<and> t < length (workers s) \<and> workers s ! t = Popped interval \<longrightarrow>
        (if \<bar>spec_q2 func interval - spec_q1 interval\<bar> < tol interval
            \<or> right interval - left interval < 1 / 10 ^ 12
         then quad (step func t s)
                = quad s + (spec_q2 func interval
                            + (spec_q2 func interval - spec_q1 interval) / 15)
              \<and> total_processed (step func t s) = total_processed s + 1
              \<and> accepted (step func t s) = accepted s @ [interval]
         else quad (step func t s) = quad s
              \<and> total_processed (step func t s) = total_processed s
              \<and> accepted (step func t s) = accepted s))"
proof -
  have met: "tolerance_met func interval
       = (\<bar>spec_q2 func interval - spec_q1 interval\<bar> < tol interval
          \<or> right interval - left interval < 1 / 10 ^ 12)"
    by (simp add: tolerance_met_def q1_spec q2_spec)
  have con: "contribution func interval
      = spec_q2 func interval + (spec_q2 func interval - spec_q1 interval) / 15"
    by (simp add: contribution_def q1_spec q2_spec)
  have "if \<bar>spec_q2 func interval - spec_q1 interval\<bar> < tol interval
            \<or> right interval - left interval < 1 / 10 ^ 12
         then quad (step func t s)
                = quad s + (spec_q2 func interval
                            + (spec_q2 func interval - spec_q1 interval) / 15)
              \<and> total_processed (step func t s) = total_processed s + 1
              \<and> accepted (step func t s) = accepted s @ [interval]
         else quad (step func t s) = quad s
              \<and> total_processed (step func t s) = total_processed s
              \<and> accepted (step func t s) = accepted s"
    if h: "status s = Running \<and> t < length (workers s) \<and> workers s ! t = Popped interval"
  proof (cases "tolerance_met func interval")
    case True
    then have c: "\<bar>spec_q2 func interval - spec_q1 interval\<bar> < tol interval
            \<or> right interval - left interval < 1 / 10 ^ 12"
      unfolding met .
    from h True step_accepts [of s t interval func]
    have "quad (step func t s)
                = quad s + (spec_q2 func interval
                            + (spec_q2 func interval - spec_q1 interval) / 15)
              \<and> total_processed (step func t s) = total_processed s + 1
              \<and> accepted (step func t s) = accepted s @ [interval]"
      unfolding con by blast
    then show ?thesis by (subst if_P [OF c])
  next
    case False
    then have c: "\<not> (\<bar>spec_q2 func interval - spec_q1 interval\<bar> < tol interval
            \<or> right interval - left interval < 1 / 10 ^ 12)"
      unfolding met .
    from h False step_splits [of s t interval func]
    have "quad (step func t s) = quad s
              \<and> total_processed (step func t s) = total_processed s
              \<and> accepted (step func t s) = accepted s"
      by blast
    then show ?thesis by (subst if_not_P [OF c])
  qed
  with met q1_spec [of interval] q2_spec [of func interval] show ?thesis by blast
qed

theorem C2_refinement_step_witness:
  "status (step (\<lambda>x. 5) 0
       (start (\<lambda>x. 5) 0 10 (1 / 10 ^ 6) \<lparr>entry = \<lambda>k. whole (\<lambda>x. 5) 0 10 1, top = 0\<rparr> 1))
     = Running
   \<and> workers (step (\<lambda>x. 5) 0
       (start (\<lambda>x. 5) 0 10 (1 / 10 ^ 6) \<lparr>entry = \<lambda>k. whole (\<lambda>x. 5) 0 10 1, top = 0\<rparr> 1)) ! 0
     = Popped (whole (\<lambda>x. 5) 0 10 (1 / 10 ^ 6))
   \<and> quad (step (\<lambda>x. 5) 0 (step (\<lambda>x. 5) 0
       (start (\<lambda>x. 5) 0 10 (1 / 10 ^ 6) \<lparr>entry = \<lambda>k. whole (\<lambda>x. 5) 0 10 1, top = 0\<rparr> 1)))
     = 50"
proof -
  let ?f = "\<lambda>x::real. 5::real"
  let ?i = "whole ?f 0 10 (1 / 10 ^ 6)"
  let ?s = "step ?f 0 (start ?f 0 10 (1 / 10 ^ 6)
      \<lparr>entry = \<lambda>k. whole (\<lambda>x. 5) 0 10 1, top = 0\<rparr> 1)"
  have r: "status ?s = Running" and t: "0 < length (workers ?s)"
    and w: "workers ?s ! 0 = Popped ?i" and q: "quad ?s = 0"
    by (simp_all add: solver_defs)
  have a: "\<bar>spec_q2 ?f ?i - spec_q1 ?i\<bar> < tol ?i \<or> right ?i - left ?i < 1 / 10 ^ 12"
    by (simp add: spec_q1_def spec_q2_def whole_def)
  have v: "spec_q2 ?f ?i + (spec_q2 ?f ?i - spec_q1 ?i) / 15 = 50"
    by (simp add: spec_q1_def spec_q2_def whole_def)
  note th = C2_refinement_step [where interval = ?i and func = ?f and s = ?s and t = 0]
  from th r t w have "if \<bar>spec_q2 ?f ?i - spec_q1 ?i\<bar> < tol ?i
        \<or> right ?i - left ?i < 1 / 10 ^ 12
      then quad (step ?f 0 ?s) = quad ?s + (spec_q2 ?f ?i + (spec_q2 ?f ?i - spec_q1 ?i) / 15)
            \<and> total_processed (step ?f 0 ?s) = total_processed ?s + 1
            \<and> accepted (step ?f 0 ?s) = accepted ?s @ [?i]
      else quad (step ?f 0 ?s) = quad ?s
            \<and> total_processed (step ?f 0 ?s) = total_processed ?s
            \<and> accepted (step ?f 0 ?s) = accepted ?s"
    by blast
  then have "quad (step ?f 0 ?s) = quad ?s + (spec_q2 ?f ?i + (spec_q2 ?f ?i - spec_q1 ?i) / 15)"
    by (subst (asm) if_P [OF a]) blast
  with q v have "quad (step ?f 0 ?s) = 50" by simp
  with r w show ?thesis by blast
qed

section \<open>Claim C3: what simpson returns\<close>

text \<open>
  Claim C3 (the code breaks the claim). \<open>main\<close>'s domain and tolerance with the constant
  integrand 5: whatever the number of threads and the interleaving, \<open>simpson\<close> does not
  return. With one thread, after the pop and the acceptance, \<open>quad\<close> is 50,
  \<open>total_processed = total = 1\<close>, and the process has left with \<open>exit(0)\<close> inside
  \<open>simpson\<close>: \<open>return quad\<close> and the \<open>printf\<close> of the result in \<open>main\<close> are never reached.
\<close>

theorem C3_exit_instead_of_return:
  "returned (run (\<lambda>x. 5) sched (main_start (\<lambda>x. 5) memory (Suc n))) = None
   \<and> status (run (\<lambda>x. 5) [0, 0] (main_start (\<lambda>x. 5) memory 1)) = Exited0
   \<and> quad (run (\<lambda>x. 5) [0, 0] (main_start (\<lambda>x. 5) memory 1)) = 50
   \<and> total_processed (run (\<lambda>x. 5) [0, 0] (main_start (\<lambda>x. 5) memory 1)) = 1
   \<and> total (run (\<lambda>x. 5) [0, 0] (main_start (\<lambda>x. 5) memory 1)) = 1"
proof -
  have "returned (run (\<lambda>x. 5) sched (main_start (\<lambda>x. 5) memory (Suc n))) = None"
    unfolding main_start_def
    by (rule accepted_at_once_never_returns [OF constant_met]) simp
  moreover have "status (run (\<lambda>x. 5) [0, 0] (main_start (\<lambda>x. 5) memory 1)) = Exited0"
    and "quad (run (\<lambda>x. 5) [0, 0] (main_start (\<lambda>x. 5) memory 1)) = 50"
    and "total_processed (run (\<lambda>x. 5) [0, 0] (main_start (\<lambda>x. 5) memory 1)) = 1"
    and "total (run (\<lambda>x. 5) [0, 0] (main_start (\<lambda>x. 5) memory 1)) = 1"
    by (simp_all add: main_start_def solver_defs kernel_defs)
  ultimately show ?thesis by blast
qed

section \<open>Claim C4: the invariant of the intervals\<close>









section \<open>Claim C5: the counters\<close>

lemma step_counters:
  "total (step func t s) = total s \<and> total_processed (step func t s) = total_processed s
   \<or> total (step func t s) = total s + 2
       \<and> total_processed (step func t s) = total_processed s
   \<or> total (step func t s) = total s
       \<and> total_processed (step func t s) = total_processed s + 1"
proof (cases "status s = Running \<and> t < length (workers s)")
  case False
  then have "step func t s = s" by (auto simp: step_def)
  then show ?thesis by simp
next
  case True
  then have "status s = Running" and "t < length (workers s)" by simp_all
  then show ?thesis
  proof (cases rule: step_effect [where func = func])
    case (accept interval)
    then show ?thesis by (simp add: accept_fields)
  qed simp_all
qed

lemma fetch_counters:
  "total (fetch t s) = total s" "total_processed (fetch t s) = total_processed s"
  by (auto simp: fetch_def split: sum.splits)

lemma c_int_id: "- 2147483648 \<le> x \<Longrightarrow> x \<le> INT_MAX \<Longrightarrow> c_int x = x"
  by (simp add: c_int_def INT_MAX_def)

lemma total_mono: "total s \<le> total (run func sched s)"
proof (induction sched arbitrary: s)
  case Nil
  show ?case by simp
next
  case (Cons t sched)
  from step_counters [of func t s] have "total s \<le> total (step func t s)" by auto
  with Cons [of "step func t s"] show ?case by simp
qed

lemma fetch_step:
  assumes "status s = Running" and "t < length (workers s)" and "workers s ! t = AtLoopHead"
  shows "total (step func t s) = total s"
    and "total_processed (step func t s) = total_processed s"
  using assms by (simp_all add: step_def fetch_counters)

lemma accept_step:
  assumes "status s = Running" and "t < length (workers s)"
    and "workers s ! t = Popped interval" and "tolerance_met func interval"
  shows "total (step func t s) = total s"
    and "total_processed (step func t s) = total_processed s + 1"
  using assms by (simp_all add: step_def accept_fields)

text \<open>
  Claim C5 as it stands fails. The integrand 0 on \<open>[0, 1/512]\<close> with tolerance 0 and one
  thread: after \<open>2^32\<close> steps the thread has split \<open>2^30\<close> intervals and accepted \<open>2^30\<close>,
  and \<open>total\<close> is \<open>2^31 + 1\<close>, above \<open>INT_MAX\<close>. The C variable \<open>total\<close> is an \<open>int\<close>: with
  the wrap-around of two's complement it holds \<open>-2147483647\<close>, below \<open>total_processed\<close>.
\<close>

theorem C5_counter_overflow_counterexample:
  "total (run (\<lambda>x. 0) (replicate 4294967296 0)
          (start (\<lambda>x. 0) 0 (1 / 512) 0 \<lparr>entry = \<lambda>k. whole (\<lambda>x. 0) 0 1 0, top = 0\<rparr> 1)) = 2147483649
   \<and> total_processed (run (\<lambda>x. 0) (replicate 4294967296 0)
          (start (\<lambda>x. 0) 0 (1 / 512) 0 \<lparr>entry = \<lambda>k. whole (\<lambda>x. 0) 0 1 0, top = 0\<rparr> 1)) = 1073741824
   \<and> INT_MAX < total (run (\<lambda>x. 0) (replicate 4294967296 0)
          (start (\<lambda>x. 0) 0 (1 / 512) 0 \<lparr>entry = \<lambda>k. whole (\<lambda>x. 0) 0 1 0, top = 0\<rparr> 1))
   \<and> c_int (total (run (\<lambda>x. 0) (replicate 4294967296 0)
          (start (\<lambda>x. 0) 0 (1 / 512) 0 \<lparr>entry = \<lambda>k. whole (\<lambda>x. 0) 0 1 0, top = 0\<rparr> 1))) = - 2147483647
   \<and> c_int (total_processed (run (\<lambda>x. 0) (replicate 4294967296 0)
          (start (\<lambda>x. 0) 0 (1 / 512) 0 \<lparr>entry = \<lambda>k. whole (\<lambda>x. 0) 0 1 0, top = 0\<rparr> 1))) = 1073741824
   \<and> \<not> c_int (total_processed (run (\<lambda>x. 0) (replicate 4294967296 0)
          (start (\<lambda>x. 0) 0 (1 / 512) 0 \<lparr>entry = \<lambda>k. whole (\<lambda>x. 0) 0 1 0, top = 0\<rparr> 1))) \<le> c_int (total (run (\<lambda>x. 0) (replicate 4294967296 0)
          (start (\<lambda>x. 0) 0 (1 / 512) 0 \<lparr>entry = \<lambda>k. whole (\<lambda>x. 0) 0 1 0, top = 0\<rparr> 1)))"
  unfolding zero_run_overflow by (simp add: INT_MAX_def c_int_def)

text \<open>
  Claim C5, amended. \<open>main\<close> starts the workers with \<open>total = 1\<close> and
  \<open>total_processed = 0\<close>, and \<open>total\<close> never decreases. After any interleaving of any
  number of threads that leaves \<open>total\<close> at most \<open>INT_MAX = 2147483647\<close>, the two \<open>int\<close>
  variables hold the counters without wrap-around, \<open>total\<close> is odd and
  \<open>0 \<le> total_processed \<le> total\<close>. The step of a thread at the head of the loop changes
  neither counter; the step of a thread that holds an interval meeting the test adds
  exactly 1 to \<open>total_processed\<close>; the step of a thread that holds an interval failing it,
  with room for two entries in the queue, adds exactly 2 to \<open>total\<close>. No step does
  anything else to the counters.
\<close>

theorem C5_counters_within_int:
  "total (start func a b eps memory n) = 1
   \<and> total_processed (start func a b eps memory n) = 0
   \<and> total (run func sched (start func a b eps memory n))
       \<le> total (run func (sched @ later) (start func a b eps memory n))
   \<and> (total (run func sched (start func a b eps memory n)) \<le> INT_MAX \<longrightarrow>
        c_int (total (run func sched (start func a b eps memory n)))
          = total (run func sched (start func a b eps memory n))
        \<and> c_int (total_processed (run func sched (start func a b eps memory n)))
          = total_processed (run func sched (start func a b eps memory n))
        \<and> odd (total (run func sched (start func a b eps memory n)))
        \<and> 0 \<le> total_processed (run func sched (start func a b eps memory n))
        \<and> total_processed (run func sched (start func a b eps memory n))
            \<le> total (run func sched (start func a b eps memory n)))
   \<and> (status s = Running \<and> t < length (workers s) \<and> workers s ! t = AtLoopHead \<longrightarrow>
        total (step func t s) = total s
        \<and> total_processed (step func t s) = total_processed s)
   \<and> (status s = Running \<and> t < length (workers s) \<and> workers s ! t = Popped interval
        \<and> tolerance_met func interval \<longrightarrow>
        total (step func t s) = total s
        \<and> total_processed (step func t s) = total_processed s + 1)
   \<and> (status s = Running \<and> t < length (workers s) \<and> workers s ! t = Popped interval
        \<and> \<not> tolerance_met func interval
        \<and> top_ok (queue s) \<and> size_queue (queue s) + 2 \<le> MAXQUEUE \<longrightarrow>
        total (step func t s) = total s + 2
        \<and> total_processed (step func t s) = total_processed s)
   \<and> (total (step func t s) = total s \<and> total_processed (step func t s) = total_processed s
      \<or> total (step func t s) = total s + 2
          \<and> total_processed (step func t s) = total_processed s
      \<or> total (step func t s) = total s
          \<and> total_processed (step func t s) = total_processed s + 1)"
proof -
  define r where "r = run func sched (start func a b eps memory n)"
  have "counters_inv r"
    unfolding r_def by (rule counters_inv_run) (rule counters_inv_start)
  then have inv: "odd (total r)" "0 \<le> total_processed r" "total_processed r \<le> total r"
    by (simp_all add: counters_inv_def)
  have "c_int (total r) = total r \<and> c_int (total_processed r) = total_processed r"
    if "total r \<le> INT_MAX"
    using that inv by (intro conjI c_int_id) simp_all
  with inv have bounded: "total r \<le> INT_MAX \<longrightarrow>
      c_int (total r) = total r \<and> c_int (total_processed r) = total_processed r
      \<and> odd (total r) \<and> 0 \<le> total_processed r \<and> total_processed r \<le> total r"
    by blast
  have "total (start func a b eps memory n) = 1"
    and "total_processed (start func a b eps memory n) = 0"
    by (simp_all add: start_def enqueue_def init_def MAXQUEUE_def)
  moreover have "total r \<le> total (run func (sched @ later) (start func a b eps memory n))"
    unfolding r_def run_append by (rule total_mono)
  moreover note bounded step_counters [of func t s]
  moreover have "total (step func t s) = total s
        \<and> total_processed (step func t s) = total_processed s"
    if "status s = Running \<and> t < length (workers s) \<and> workers s ! t = AtLoopHead"
    using fetch_step [of s t func] that by blast
  moreover have "total (step func t s) = total s
        \<and> total_processed (step func t s) = total_processed s + 1"
    if "status s = Running \<and> t < length (workers s) \<and> workers s ! t = Popped interval
        \<and> tolerance_met func interval"
    using accept_step [of s t interval func] that by blast
  moreover have "total (step func t s) = total s + 2
        \<and> total_processed (step func t s) = total_processed s"
    if "status s = Running \<and> t < length (workers s) \<and> workers s ! t = Popped interval
        \<and> \<not> tolerance_met func interval
        \<and> top_ok (queue s) \<and> size_queue (queue s) + 2 \<le> MAXQUEUE"
    using split_step(3,4) [of s t interval func] that by blast
  ultimately show ?thesis unfolding r_def by blast
qed

theorem C5_counters_within_int_witness:
  "\<not> tolerance_met (\<lambda>x. x * x * x * x) (whole (\<lambda>x. x * x * x * x) 0 10 100)
   \<and> total (step (\<lambda>x. x * x * x * x) 0 (run (\<lambda>x. x * x * x * x) [0]
          (start (\<lambda>x. x * x * x * x) 0 10 100 \<lparr>entry = \<lambda>k. whole (\<lambda>x. 5) 0 10 1, top = 0\<rparr> 1))) = 3
   \<and> total_processed (step (\<lambda>x. x * x * x * x) 0 (run (\<lambda>x. x * x * x * x) [0]
          (start (\<lambda>x. x * x * x * x) 0 10 100 \<lparr>entry = \<lambda>k. whole (\<lambda>x. 5) 0 10 1, top = 0\<rparr> 1))) = 0
   \<and> tolerance_met (\<lambda>x. x * x * x * x)
       (i2 (\<lambda>x. x * x * x * x) (whole (\<lambda>x. x * x * x * x) 0 10 100))
   \<and> total (step (\<lambda>x. x * x * x * x) 0 (run (\<lambda>x. x * x * x * x) [0, 0, 0]
          (start (\<lambda>x. x * x * x * x) 0 10 100 \<lparr>entry = \<lambda>k. whole (\<lambda>x. 5) 0 10 1, top = 0\<rparr> 1))) = 3
   \<and> total_processed (step (\<lambda>x. x * x * x * x) 0 (run (\<lambda>x. x * x * x * x) [0, 0, 0]
          (start (\<lambda>x. x * x * x * x) 0 10 100 \<lparr>entry = \<lambda>k. whole (\<lambda>x. 5) 0 10 1, top = 0\<rparr> 1))) = 1
   \<and> total_processed (step (\<lambda>x. x * x * x * x) 0 (run (\<lambda>x. x * x * x * x) []
          (start (\<lambda>x. x * x * x * x) 0 10 100 \<lparr>entry = \<lambda>k. whole (\<lambda>x. 5) 0 10 1, top = 0\<rparr> 1))) = 0
   \<and> total (run (\<lambda>x. x * x * x * x) [0, 0, 0, 0, 0, 0, 0]
          (start (\<lambda>x. x * x * x * x) 0 10 100 \<lparr>entry = \<lambda>k. whole (\<lambda>x. 5) 0 10 1, top = 0\<rparr> 1)) \<le> INT_MAX
   \<and> c_int (total (run (\<lambda>x. x * x * x * x) [0, 0, 0, 0, 0, 0, 0]
          (start (\<lambda>x. x * x * x * x) 0 10 100 \<lparr>entry = \<lambda>k. whole (\<lambda>x. 5) 0 10 1, top = 0\<rparr> 1))) = 3
   \<and> c_int (total_processed (run (\<lambda>x. x * x * x * x) [0, 0, 0, 0, 0, 0, 0]
          (start (\<lambda>x. x * x * x * x) 0 10 100 \<lparr>entry = \<lambda>k. whole (\<lambda>x. 5) 0 10 1, top = 0\<rparr> 1))) = 2
   \<and> odd (total (run (\<lambda>x. x * x * x * x) [0, 0, 0, 0, 0, 0, 0]
          (start (\<lambda>x. x * x * x * x) 0 10 100 \<lparr>entry = \<lambda>k. whole (\<lambda>x. 5) 0 10 1, top = 0\<rparr> 1)))"
proof -
  let ?f = "\<lambda>x::real. x * x * x * x"
  let ?m = "\<lparr>entry = \<lambda>k. whole (\<lambda>x. 5) 0 10 1, top = 0\<rparr>"
  let ?s0 = "start ?f 0 10 100 ?m 1"
  let ?s1 = "run ?f [0] ?s0"
  let ?s3 = "run ?f [0, 0, 0] ?s0"
  let ?s7 = "run ?f [0, 0, 0, 0, 0, 0, 0] ?s0"
  let ?x = "whole ?f 0 10 100"
  note p = quartic_10_popped and q = quartic_10_right and e = quartic_10_end
  have h0: "status (run ?f [] ?s0) = Running" "0 < length (workers (run ?f [] ?s0))"
    "workers (run ?f [] ?s0) ! 0 = AtLoopHead" "total_processed (run ?f [] ?s0) = 0"
    by (simp_all add: start_def enqueue_def init_def MAXQUEUE_def)
  have h1: "0 < length (workers ?s1)" "workers ?s1 ! 0 = Popped ?x"
    unfolding p(2) by simp_all
  have ok: "top_ok (queue ?s1)" and room: "size_queue (queue ?s1) + 2 \<le> MAXQUEUE"
    unfolding top_ok_def size_queue_def MAXQUEUE_def p(3) by simp_all
  have h3: "0 < length (workers ?s3)" "workers ?s3 ! 0 = Popped (i2 ?f ?x)"
    unfolding q(2) by simp_all
  have b7: "total ?s7 \<le> INT_MAX" unfolding e by (simp add: INT_MAX_def)
  from C5_counters_within_int [where func = ?f and s = ?s1 and t = 0 and interval = ?x]
    p(1) h1 quartic_10_not_met ok room
  have "total (step ?f 0 ?s1) = total ?s1 + 2
      \<and> total_processed (step ?f 0 ?s1) = total_processed ?s1"
    by blast
  then have a: "total (step ?f 0 ?s1) = 3 \<and> total_processed (step ?f 0 ?s1) = 0"
    unfolding p(4,5) by simp
  from C5_counters_within_int [where func = ?f and s = ?s3 and t = 0 and interval = "i2 ?f ?x"]
    q(1,5) h3
  have "total (step ?f 0 ?s3) = total ?s3
      \<and> total_processed (step ?f 0 ?s3) = total_processed ?s3 + 1"
    by blast
  then have b: "total (step ?f 0 ?s3) = 3 \<and> total_processed (step ?f 0 ?s3) = 1"
    unfolding q(3,4) by simp
  from C5_counters_within_int [where func = ?f and s = "run ?f [] ?s0" and t = 0] h0(1-3)
  have "total_processed (step ?f 0 (run ?f [] ?s0)) = total_processed (run ?f [] ?s0)"
    by blast
  then have c: "total_processed (step ?f 0 (run ?f [] ?s0)) = 0"
    unfolding h0(4) .
  from C5_counters_within_int [where func = ?f and a = 0 and b = 10 and eps = 100
      and memory = ?m and n = 1 and sched = "[0, 0, 0, 0, 0, 0, 0]"] b7
  have "c_int (total ?s7) = total ?s7 \<and> c_int (total_processed ?s7) = total_processed ?s7
      \<and> odd (total ?s7)"
    by blast
  then have d: "c_int (total ?s7) = 3 \<and> c_int (total_processed ?s7) = 2 \<and> odd (total ?s7)"
    unfolding e by simp
  from a b c d b7 quartic_10_not_met q(5) show ?thesis by blast
qed

section \<open>Claim C6: the widths\<close>







section \<open>Claim C7: the store is a bounded stack\<close>

lemma push_then_pop:
  assumes "top_ok s" and "top s \<noteq> MAXQUEUE - 1"
  shows "\<exists>s1 s2. enqueue i s = Inr s1 \<and> dequeue s1 = Inr (i, s2)
           \<and> top s2 = top s \<and> contents s2 = contents s
           \<and> (\<forall>k. k \<noteq> top s + 1 \<longrightarrow> entry s2 k = entry s k)"
proof -
  from assms(1) have lo: "- 1 \<le> top s" by (simp add: top_ok_def)
  define s1 where "s1 = s\<lparr>entry := (entry s)(top s + 1 := i), top := top s + 1\<rparr>"
  define s2 where "s2 = s1\<lparr>top := top s1 - 1\<rparr>"
  from assms(2) have en: "enqueue i s = Inr s1"
    by (simp add: enqueue_def s1_def)
  from lo have de: "dequeue s1 = Inr (i, s2)"
    by (simp add: dequeue_def s1_def s2_def)
  from lo have "- 1 \<le> top s1" by (simp add: s1_def)
  from contents_enqueue [OF en lo] contents_dequeue [OF de this]
  have "contents s2 = contents s" by simp
  with en de show ?thesis
    by (auto simp: s1_def s2_def)
qed

lemma push_at_top:
  assumes "top_ok s" and "enqueue i s = Inr s'"
  shows "contents s' = contents s @ [i] \<and> top s' = top s + 1
           \<and> (\<forall>k. k \<noteq> top s + 1 \<longrightarrow> entry s' k = entry s k)
           \<and> top_ok s' \<and> size_queue s' \<le> MAXQUEUE"
proof -
  from assms(1) have lo: "- 1 \<le> top s" by (simp add: top_ok_def)
  from top_ok_enqueue [OF assms(2) assms(1)] have ok: "top_ok s'" .
  from assms(2) have "top s' = top s + 1"
    and "\<forall>k. k \<noteq> top s + 1 \<longrightarrow> entry s' k = entry s k"
    by (auto simp: enqueue_def split: if_splits)
  with ok contents_enqueue [OF assms(2) lo] show ?thesis
    by (simp add: top_ok_def size_queue_def)
qed

lemma pop_at_top:
  assumes "top_ok s" and "dequeue s = Inr (j, s')"
  shows "contents s = contents s' @ [j] \<and> top s' = top s - 1 \<and> entry s' = entry s
           \<and> top_ok s' \<and> size_queue s' \<le> MAXQUEUE"
proof -
  from assms(1) have lo: "- 1 \<le> top s" by (simp add: top_ok_def)
  from top_ok_dequeue [OF assms(2) assms(1)] have ok: "top_ok s'" .
  from assms(2) have "top s' = top s - 1" and "entry s' = entry s"
    by (auto simp: dequeue_def split: if_splits)
  with ok contents_dequeue [OF assms(2) lo] show ?thesis
    by (simp add: top_ok_def size_queue_def)
qed

text \<open>
  Claim C7. The store is a bounded stack. For a store \<open>s\<close> whose index is in range:
  if \<open>s\<close> is not at capacity, \<open>enqueue\<close> succeeds, and the \<open>dequeue\<close> that follows returns
  the pushed interval and gives back the index and the live entries of \<open>s\<close> (the one
  slot of the array that may differ from \<open>s\<close> is the dead one above \<open>top\<close>, which keeps
  a copy of the interval); every successful \<open>enqueue\<close> appends at index \<open>top + 1\<close> and
  writes no other slot; every successful \<open>dequeue\<close> returns the last live entry, the one
  pushed most recently and still present, writes no slot and lowers \<open>top\<close> by one; and
  the number of entries is at most \<open>MAXQUEUE\<close> before and after both. \<open>init\<close> gives an
  empty store with its index in range, and in every state of every run of the solver the
  index is in range and the number of entries is at most \<open>MAXQUEUE\<close>.
\<close>

theorem C7_store_is_bounded_stack:
  assumes "top_ok s"
  shows "(top s \<noteq> MAXQUEUE - 1 \<longrightarrow>
            (\<exists>s1 s2. enqueue i s = Inr s1 \<and> dequeue s1 = Inr (i, s2)
               \<and> top s2 = top s \<and> contents s2 = contents s
               \<and> (\<forall>k. k \<noteq> top s + 1 \<longrightarrow> entry s2 k = entry s k)))
       \<and> (\<forall>s'. enqueue i s = Inr s' \<longrightarrow>
            contents s' = contents s @ [i] \<and> top s' = top s + 1
            \<and> (\<forall>k. k \<noteq> top s + 1 \<longrightarrow> entry s' k = entry s k)
            \<and> top_ok s' \<and> size_queue s' \<le> MAXQUEUE)
       \<and> (\<forall>j s'. dequeue s = Inr (j, s') \<longrightarrow>
            contents s = contents s' @ [j] \<and> top s' = top s - 1 \<and> entry s' = entry s
            \<and> top_ok s' \<and> size_queue s' \<le> MAXQUEUE)
       \<and> int (length (contents s)) = size_queue s \<and> size_queue s \<le> MAXQUEUE
       \<and> top_ok (init memory) \<and> size_queue (init memory) = 0
       \<and> top_ok (queue (run func sched (start func a b eps memory n)))
       \<and> size_queue (queue (run func sched (start func a b eps memory n))) \<le> MAXQUEUE"
proof (intro conjI impI allI)
  assume "top s \<noteq> MAXQUEUE - 1"
  with assms show "\<exists>s1 s2. enqueue i s = Inr s1 \<and> dequeue s1 = Inr (i, s2)
               \<and> top s2 = top s \<and> contents s2 = contents s
               \<and> (\<forall>k. k \<noteq> top s + 1 \<longrightarrow> entry s2 k = entry s k)"
    by (rule push_then_pop)
next
  fix s' assume en: "enqueue i s = Inr s'"
  note p = push_at_top [OF assms en]
  from p show "contents s' = contents s @ [i]" by simp
  from p show "top s' = top s + 1" by simp
  from p show "top_ok s'" by simp
  from p show "size_queue s' \<le> MAXQUEUE" by simp
  fix k assume "k \<noteq> top s + 1"
  with p show "entry s' k = entry s k" by simp
next
  fix j s' assume de: "dequeue s = Inr (j, s')"
  note p = pop_at_top [OF assms de]
  from p show "contents s = contents s' @ [j]" by simp
  from p show "top s' = top s - 1" by simp
  from p show "entry s' = entry s" by simp
  from p show "top_ok s'" by simp
  from p show "size_queue s' \<le> MAXQUEUE" by simp
next
  from assms have lo: "- 1 \<le> top s" by (simp add: top_ok_def)
  from length_contents [OF lo] show "int (length (contents s)) = size_queue s" .
  from assms show "size_queue s \<le> MAXQUEUE" by (simp add: top_ok_def size_queue_def)
  show "top_ok (init memory)" by (rule top_ok_init)
  show "size_queue (init memory) = 0" by (simp add: size_queue_def init_def)
  have "counters_inv (run func sched (start func a b eps memory n))"
    by (intro counters_inv_run counters_inv_start)
  then show "top_ok (queue (run func sched (start func a b eps memory n)))"
    by (simp add: counters_inv_def)
  then show "size_queue (queue (run func sched (start func a b eps memory n))) \<le> MAXQUEUE"
    by (simp add: top_ok_def size_queue_def)
qed

theorem C7_store_is_bounded_stack_witness:
  "top_ok (init \<lparr>entry = \<lambda>k. whole (\<lambda>x. 5) 0 10 1, top = 7\<rparr>)
   \<and> top (init \<lparr>entry = \<lambda>k. whole (\<lambda>x. 5) 0 10 1, top = 7\<rparr>) \<noteq> MAXQUEUE - 1
   \<and> (\<exists>s1 s2. enqueue (whole (\<lambda>x. x) 0 1 1)
                  (init \<lparr>entry = \<lambda>k. whole (\<lambda>x. 5) 0 10 1, top = 7\<rparr>) = Inr s1
          \<and> dequeue s1 = Inr (whole (\<lambda>x. x) 0 1 1, s2)
          \<and> top s2 = - 1 \<and> contents s2 = [])"
proof -
  let ?s = "init \<lparr>entry = \<lambda>k. whole (\<lambda>x. 5) 0 10 1, top = 7\<rparr>"
  have ok: "top_ok ?s" by (rule top_ok_init)
  have room: "top ?s \<noteq> MAXQUEUE - 1" by (simp add: init_def MAXQUEUE_def)
  have tp: "top ?s = - 1" by (simp add: init_def)
  have emp: "contents ?s = []" by (simp add: contents_def init_def)
  from C7_store_is_bounded_stack [OF ok, of "whole (\<lambda>x. x) 0 1 1"] room
  have "\<exists>s1 s2. enqueue (whole (\<lambda>x. x) 0 1 1) ?s = Inr s1
          \<and> dequeue s1 = Inr (whole (\<lambda>x. x) 0 1 1, s2)
          \<and> top s2 = top ?s \<and> contents s2 = contents ?s"
    by blast
  then have "\<exists>s1 s2. enqueue (whole (\<lambda>x. x) 0 1 1) ?s = Inr s1
          \<and> dequeue s1 = Inr (whole (\<lambda>x. x) 0 1 1, s2)
          \<and> top s2 = - 1 \<and> contents s2 = []"
    unfolding tp emp .
  with ok room show ?thesis by blast
qed

section \<open>Claim C8: termination\<close>

















section \<open>Claim C9: one thread against the recursive solver\<close>

text \<open>
  With one thread, when the whole interval fails the test (so that at least one split
  happens) and the depth of the refinement fits the queue, \<open>simpson\<close> of the queue solver
  returns, its value is the value of the recursive \<open>simpson\<close>, and the intervals it has
  accepted are the leaves of the recursion, taken from right to left.
\<close>

lemma single_thread_equivalence:
  assumes "\<not> tolerance_met func (whole func a b eps)"
    and "int (halvings (b - a)) + 1 \<le> MAXQUEUE"
  shows "\<exists>k. returned (run func (replicate k 0) (start func a b eps memory 1))
             = Some (simpson func (whole func a b eps))
           \<and> accepted (run func (replicate k 0) (start func a b eps memory 1))
             = rev (leaves func (whole func a b eps))"
proof -
  let ?s = "start func a b eps memory 1"
  let ?x = "whole func a b eps"
  have p: "status ?s = Running" "workers ?s = [AtLoopHead]" "top_ok (queue ?s)"
    "contents (queue ?s) = [] @ [?x]"
    by (simp_all add: start_def enqueue_def init_def top_ok_def MAXQUEUE_def contents_def)
  have "var_h ?x = b - a" by (simp add: var_h_def whole_def)
  with assms(2) have cap: "int (length ([]::Interval list)) + int (halvings (var_h ?x)) + 1
      \<le> MAXQUEUE" by simp
  have bal: "2 * (total_processed ?s + int (length ([]::Interval list)) + 1) = total ?s + 1"
    and nn: "0 \<le> total_processed ?s"
    by (simp_all add: start_def enqueue_def init_def MAXQUEUE_def)
  from assms(1)
  have ex: "tolerance_met func ?x \<longrightarrow> 1 \<le> total_processed ?s \<or> ([]::Interval list) \<noteq> []"
    by simp
  from single_thread_subtree [OF p cap bal nn ex]
  obtain k where "treated func [] ?x ?s (run func (replicate k 0) ?s)" ..
  then have k: "status (run func (replicate k 0) ?s) = Running"
    "workers (run func (replicate k 0) ?s) = [AtLoopHead]"
    "top_ok (queue (run func (replicate k 0) ?s))"
    "contents (queue (run func (replicate k 0) ?s)) = []"
    "quad (run func (replicate k 0) ?s)
       = quad ?s + sum_list (map (contribution func) (leaves func ?x))"
    "accepted (run func (replicate k 0) ?s) = accepted ?s @ rev (leaves func ?x)"
    by (simp_all add: treated_def)
  define s' where "s' = run func (replicate k 0) ?s"
  note k' = k [folded s'_def]
  from k'(3,4) have "top (queue s') = - 1"
    by (auto simp: contents_def top_ok_def)
  with k'(1,2) have last: "step func 0 s' = s'\<lparr>workers := [LeftLoop]\<rparr>"
    by (simp add: step_def fetch_def isempty_def)
  have "replicate (Suc k) (0::nat) = replicate k 0 @ [0]"
    by (simp add: replicate_append_same)
  then have r: "run func (replicate (Suc k) 0) ?s = s'\<lparr>workers := [LeftLoop]\<rparr>"
    by (simp only: run_append s'_def [symmetric]) (simp add: last)
  have q0: "quad ?s = 0" "accepted ?s = []"
    by (simp_all add: start_def enqueue_def init_def MAXQUEUE_def)
  have "returned (run func (replicate (Suc k) 0) ?s) = Some (simpson func ?x)
      \<and> accepted (run func (replicate (Suc k) 0) ?s) = rev (leaves func ?x)"
    unfolding r using k'(1,5,6) q0 by (simp add: returned_def simpson_leaves)
  then show ?thesis ..
qed

lemma simpson_constant: "simpson (\<lambda>x. 5) (whole (\<lambda>x. 5) 0 10 (1 / 10 ^ 6)) = 50"
  by (subst simpson.simps) (simp add: kernel_defs whole_def)

text \<open>
  Claim C9 (the code breaks the claim). The constant integrand 5 on \<open>main\<close>'s domain
  \<open>[0, 10]\<close> with tolerance \<open>1e-6\<close>: the recursive \<open>simpson\<close> returns 50. The queue solver
  with exactly one thread accepts the same single interval and adds the same 50 to
  \<open>quad\<close>, but then leaves with \<open>exit(0)\<close>: for every interleaving \<open>simpson\<close> returns
  nothing, so its result is not the result of the recursive integrator.
\<close>

theorem C9_one_thread_exits_without_result:
  "simpson (\<lambda>x. 5) (whole (\<lambda>x. 5) 0 10 (1 / 10 ^ 6)) = 50
   \<and> returned (run (\<lambda>x. 5) sched (main_start (\<lambda>x. 5) memory 1)) = None
   \<and> accepted (run (\<lambda>x. 5) [0, 0] (main_start (\<lambda>x. 5) memory 1))
       = [whole (\<lambda>x. 5) 0 10 (1 / 10 ^ 6)]
   \<and> quad (run (\<lambda>x. 5) [0, 0] (main_start (\<lambda>x. 5) memory 1)) = 50
   \<and> status (run (\<lambda>x. 5) [0, 0] (main_start (\<lambda>x. 5) memory 1)) = Exited0"
proof -
  have "returned (run (\<lambda>x. 5) sched (main_start (\<lambda>x. 5) memory 1)) = None"
    unfolding main_start_def
    by (rule accepted_at_once_never_returns [OF constant_met]) simp
  moreover have "accepted (run (\<lambda>x. 5) [0, 0] (main_start (\<lambda>x. 5) memory 1))
       = [whole (\<lambda>x. 5) 0 10 (1 / 10 ^ 6)]"
    and "quad (run (\<lambda>x. 5) [0, 0] (main_start (\<lambda>x. 5) memory 1)) = 50"
    and "status (run (\<lambda>x. 5) [0, 0] (main_start (\<lambda>x. 5) memory 1)) = Exited0"
    by (simp_all add: main_start_def solver_defs kernel_defs)
  ultimately show ?thesis using simpson_constant by blast
qed

section \<open>Claim C10: the pop of the worker loop never finds the store empty\<close>

lemma dequeue_nonempty: "\<not> isempty q \<Longrightarrow> \<exists>interval q'. dequeue q = Inr (interval, q')"
  by (simp add: isempty_def dequeue_def)

lemma fetch_not_QueueEmpty:
  "status s \<noteq> Exited1 QueueEmpty \<Longrightarrow> status (fetch t s) \<noteq> Exited1 QueueEmpty"
  by (auto simp: fetch_def isempty_def dequeue_def)

lemma split_not_QueueEmpty:
  "status s \<noteq> Exited1 QueueEmpty \<Longrightarrow> status (split func t i s) \<noteq> Exited1 QueueEmpty"
  by (auto simp: split_def split: sum.splits dest: enqueue_error)

lemma accept_not_QueueEmpty:
  "status s \<noteq> Exited1 QueueEmpty \<Longrightarrow> status (accept func t i s) \<noteq> Exited1 QueueEmpty"
  by (simp add: accept_def Let_def)

lemma step_not_QueueEmpty:
  "status s \<noteq> Exited1 QueueEmpty \<Longrightarrow> status (step func t s) \<noteq> Exited1 QueueEmpty"
  by (simp add: step_def fetch_not_QueueEmpty split_not_QueueEmpty accept_not_QueueEmpty
      split: worker.splits)

lemma run_not_QueueEmpty:
  "status s \<noteq> Exited1 QueueEmpty \<Longrightarrow> status (run func sched s) \<noteq> Exited1 QueueEmpty"
  by (induction sched arbitrary: s) (simp_all add: step_not_QueueEmpty)

lemma try_get_work_not_QueueEmpty:
  "status s \<noteq> Exited1 QueueEmpty \<Longrightarrow> status (try_get_work t s) \<noteq> Exited1 QueueEmpty"
  by (auto simp: try_get_work_def isempty_def dequeue_def)

text \<open>
  Claim C10. \<open>dequeue\<close> on a store that \<open>isempty\<close> finds non-empty returns an interval. In
  the worker loop the two calls stand in one critical section, so the branch of
  \<open>dequeue\<close> that ends the process with "Attempt to extract from empty queue" is never
  taken: no step of a thread, in either solver, and no interleaving from the state that
  \<open>main\<close> sets up, ends with that exit.
\<close>

theorem C10_pop_after_emptiness_check:
  "(\<not> isempty q \<longrightarrow> (\<exists>interval q'. dequeue q = Inr (interval, q')))
   \<and> (status s \<noteq> Exited1 QueueEmpty \<longrightarrow> status (fetch t s) \<noteq> Exited1 QueueEmpty)
   \<and> (status s \<noteq> Exited1 QueueEmpty \<longrightarrow> status (step func t s) \<noteq> Exited1 QueueEmpty)
   \<and> (status s2 \<noteq> Exited1 QueueEmpty \<longrightarrow> status (try_get_work t s2) \<noteq> Exited1 QueueEmpty)
   \<and> status (run func sched (start func a b eps memory n)) \<noteq> Exited1 QueueEmpty"
proof (intro conjI impI)
  assume "\<not> isempty q"
  then show "\<exists>interval q'. dequeue q = Inr (interval, q')" by (rule dequeue_nonempty)
next
  assume "status s \<noteq> Exited1 QueueEmpty"
  then show "status (fetch t s) \<noteq> Exited1 QueueEmpty" by (rule fetch_not_QueueEmpty)
next
  assume "status s \<noteq> Exited1 QueueEmpty"
  then show "status (step func t s) \<noteq> Exited1 QueueEmpty" by (rule step_not_QueueEmpty)
next
  assume "status s2 \<noteq> Exited1 QueueEmpty"
  then show "status (try_get_work t s2) \<noteq> Exited1 QueueEmpty"
    by (rule try_get_work_not_QueueEmpty)
next
  have "status (start func a b eps memory n) \<noteq> Exited1 QueueEmpty"
    by (simp add: start_Running)
  then show "status (run func sched (start func a b eps memory n)) \<noteq> Exited1 QueueEmpty"
    by (rule run_not_QueueEmpty)
qed

theorem C10_pop_after_emptiness_check_witness:
  "\<not> isempty \<lparr>entry = \<lambda>k. whole (\<lambda>x. 5) 0 10 1, top = 0\<rparr>
   \<and> (\<exists>interval q'. dequeue \<lparr>entry = \<lambda>k. whole (\<lambda>x. 5) 0 10 1, top = 0\<rparr>
          = Inr (interval, q'))
   \<and> status (start (\<lambda>x. 5) 0 10 1 \<lparr>entry = \<lambda>k. whole (\<lambda>x. 5) 0 10 1, top = 0\<rparr> 2)
       \<noteq> Exited1 QueueEmpty
   \<and> status (step (\<lambda>x. 5) 0
         (start (\<lambda>x. 5) 0 10 1 \<lparr>entry = \<lambda>k. whole (\<lambda>x. 5) 0 10 1, top = 0\<rparr> 2))
       \<noteq> Exited1 QueueEmpty"
proof -
  let ?q = "\<lparr>entry = \<lambda>k. whole (\<lambda>x. 5) 0 10 1, top = 0\<rparr>"
  let ?s = "start (\<lambda>x. 5) 0 10 1 ?q 2"
  have ne: "\<not> isempty ?q" by (simp add: isempty_def)
  have st: "status ?s \<noteq> Exited1 QueueEmpty" by (simp add: start_Running)
  note th = C10_pop_after_emptiness_check [of ?q ?s 0 "\<lambda>x. 5"]
  from th ne have "\<exists>interval q'. dequeue ?q = Inr (interval, q')" by blast
  moreover from th st have "status (step (\<lambda>x. 5) 0 ?s) \<noteq> Exited1 QueueEmpty" by blast
  ultimately show ?thesis using ne st by blast
qed

end
